theory Spec2Isabelle
  imports Main "HOL-Library.Word"
begin

unbundle bit_operations_syntax

section \<open>Data model of the omiGlass firmware\<close>

text \<open>
  The firmware is a single cooperative loop over global variables. The globals of
  \<^verbatim>\<open>app.cpp\<close> become one record that every operation takes and returns; what the
  code sends to the outside (BLE notifications, CPU clock changes, light sleep) is appended
  to an effect trace kept in the same record. \<^verbatim>\<open>unsigned long\<close>, \<^verbatim>\<open>size_t\<close> and
  \<^verbatim>\<open>int\<close> are 32 bits wide on the ESP32-S3. Timestamps are 32-bit words, so that
  differences of \<^verbatim>\<open>millis()\<close> values wrap as in the code; buffer offsets and byte counts
  are natural numbers, with the wrap-around at \<open>2 ^ 32\<close> written out where the code
  subtracts or increments them.
\<close>

type_synonym byte = "8 word"
type_synonym sample = "16 word"
type_synonym millis = "32 word"

datatype led_status_t = LED_BOOT_SEQUENCE | LED_NORMAL_OPERATION | LED_POWER_OFF_SEQUENCE

datatype effect =
    AudioNotify "byte list"
  | PhotoNotify "byte list"
  | SetCpuFrequencyMhz nat
  | LightSleep millis

record app_state =
  connected :: bool
  audioSubscribed :: bool
  audioCharPresent :: bool
  audioPacketIndex :: "16 word"
  audio_tx_buffer :: "byte list"
  audio_tx_write_pos :: nat
  audio_tx_read_pos :: nat
  photoDataUploading :: bool
  fb :: "byte list option"
  sent_photo_bytes :: nat
  sent_photo_frames :: nat
  photo_chunks_this_loop :: nat
  current_photo_orientation :: byte
  isCapturingPhotos :: bool
  captureInterval :: "32 word"
  lastCaptureTime :: millis
  lastActivity :: millis
  powerSaveMode :: bool
  lightSleepEnabled :: bool
  buttonPressTime :: millis
  lastDebounceTime :: millis
  buttonDown :: bool
  longPressTriggered :: bool
  buttonPressed :: bool
  ledMode :: led_status_t
  trace :: "effect list"

text \<open>
  \<^verbatim>\<open>config.h\<close> is not part of the sources. The constants whose value the comments of
  \<^verbatim>\<open>app.cpp\<close> give are defined here; the buffer sizes and the microphone gain, which no
  comment fixes, are parameters of the operations that use them.
\<close>

text \<open>Modelled from the spec: \<^verbatim>\<open>PHOTO_CAPTURE_INTERVAL_MS\<close> of the missing \<^verbatim>\<open>config.h\<close>,
  30 seconds according to the comment at its use in \<^verbatim>\<open>handlePhotoControl\<close>.\<close>

definition PHOTO_CAPTURE_INTERVAL_MS :: "32 word" where
  "PHOTO_CAPTURE_INTERVAL_MS = 30000"

text \<open>Modelled from the spec: \<^verbatim>\<open>IDLE_THRESHOLD_MS\<close> of the missing \<^verbatim>\<open>config.h\<close>,
  45 seconds according to the comments of \<^verbatim>\<open>loop_app\<close>.\<close>

definition IDLE_THRESHOLD_MS :: "32 word" where
  "IDLE_THRESHOLD_MS = 45000"

text \<open>Modelled from the spec: \<^verbatim>\<open>MIN_CPU_FREQ_MHZ\<close> and \<^verbatim>\<open>NORMAL_CPU_FREQ_MHZ\<close> of the
  missing \<^verbatim>\<open>config.h\<close>, 40 and 80 according to the comments of \<^verbatim>\<open>enterPowerSave\<close> and
  \<^verbatim>\<open>exitPowerSave\<close>.\<close>

definition MIN_CPU_FREQ_MHZ :: nat where
  "MIN_CPU_FREQ_MHZ = 40"

definition NORMAL_CPU_FREQ_MHZ :: nat where
  "NORMAL_CPU_FREQ_MHZ = 80"

section \<open>Power management\<close>

definition enterPowerSave :: "app_state \<Rightarrow> app_state" where
  "enterPowerSave s =
     (if \<not> powerSaveMode s
      then s\<lparr>powerSaveMode := True, trace := trace s @ [SetCpuFrequencyMhz MIN_CPU_FREQ_MHZ]\<rparr>
      else s)"

definition exitPowerSave :: "app_state \<Rightarrow> app_state" where
  "exitPowerSave s =
     (if powerSaveMode s
      then s\<lparr>powerSaveMode := False, trace := trace s @ [SetCpuFrequencyMhz NORMAL_CPU_FREQ_MHZ]\<rparr>
      else s)"

text \<open>
  \<^verbatim>\<open>enableLightSleep\<close>. \<open>now\<close> is the value \<^verbatim>\<open>millis()\<close> returns at entry and
  \<open>wake\<close> the one it returns after \<^verbatim>\<open>esp_light_sleep_start\<close>. The comparison
  \<^verbatim>\<open>captureInterval > 0\<close> is signed; in \<^verbatim>\<open>timeSinceLastPhoto < captureInterval\<close> the
  \<^verbatim>\<open>int\<close> is converted to \<^verbatim>\<open>unsigned long\<close>.
\<close>

definition timeUntilNextPhoto :: "millis \<Rightarrow> app_state \<Rightarrow> millis" where
  "timeUntilNextPhoto now s =
     (if isCapturingPhotos s \<and> 0 <s captureInterval s
      then (let timeSinceLastPhoto = now - lastCaptureTime s
            in if timeSinceLastPhoto < captureInterval s
               then captureInterval s - timeSinceLastPhoto else 0)
      else 0)"

definition enableLightSleep :: "millis \<Rightarrow> millis \<Rightarrow> app_state \<Rightarrow> app_state" where
  "enableLightSleep now wake s =
     (if \<not> lightSleepEnabled s \<or> \<not> connected s \<or> photoDataUploading s then s
      else if now - lastActivity s < 5000 then s
      else if 10000 < timeUntilNextPhoto now s
      then (let sleepTime0 = timeUntilNextPhoto now s - 5000;
                sleepTime = (if 15000 < sleepTime0 then 15000 else sleepTime0)
            in s\<lparr>lastActivity := wake, trace := trace s @ [LightSleep sleepTime]\<rparr>)
      else s)"

text \<open>
  Section 6 of \<^verbatim>\<open>loop_app\<close>: the power-mode check, with \<open>now\<close> the timestamp taken
  at the start of the iteration.
\<close>

definition loop_power :: "millis \<Rightarrow> app_state \<Rightarrow> app_state" where
  "loop_power now s =
     (if \<not> connected s \<and> \<not> photoDataUploading s \<and> IDLE_THRESHOLD_MS < now - lastActivity s
      then enterPowerSave s
      else if connected s \<or> photoDataUploading s
      then (let s1 = (if powerSaveMode s then exitPowerSave s else s)
            in s1\<lparr>lastActivity := now\<rparr>)
      else s)"

text \<open>Section 10 of \<^verbatim>\<open>loop_app\<close>: light sleep is considered only without upload and
  without audio subscription.\<close>

definition loop_sleep :: "millis \<Rightarrow> millis \<Rightarrow> app_state \<Rightarrow> app_state" where
  "loop_sleep now wake s =
     (if \<not> photoDataUploading s \<and> \<not> audioSubscribed s then enableLightSleep now wake s else s)"

section \<open>Button handling\<close>

text \<open>
  \<^verbatim>\<open>handleButton\<close>. \<open>now\<close> is \<^verbatim>\<open>millis()\<close> and \<open>pressed\<close> the inverted pin level
  (\<^verbatim>\<open>currentButtonState\<close>). The two early returns of the debounce checks leave every
  variable as it was, the interrupt flag \<^verbatim>\<open>buttonPressed\<close> included.
\<close>

definition handleButton :: "millis \<Rightarrow> bool \<Rightarrow> app_state \<Rightarrow> app_state" where
  "handleButton now pressed s =
     (if pressed \<and> \<not> buttonDown s then
        (if now - lastDebounceTime s < 50 then s
         else s\<lparr>buttonPressTime := now, buttonDown := True, longPressTriggered := False,
                lastDebounceTime := now, buttonPressed := False\<rparr>)
      else if pressed \<and> buttonDown s \<and> \<not> longPressTriggered s then
        (let pressDuration = now - buttonPressTime s
         in if 2000 \<le> pressDuration
            then s\<lparr>longPressTriggered := True, ledMode := LED_POWER_OFF_SEQUENCE,
                   buttonPressed := False\<rparr>
            else s\<lparr>buttonPressed := False\<rparr>)
      else if \<not> pressed \<and> buttonDown s then
        (if now - lastDebounceTime s < 50 then s
         else (let pressDuration = now - buttonPressTime s;
                   s1 = s\<lparr>buttonDown := False, lastDebounceTime := now\<rparr>;
                   s2 = (if \<not> longPressTriggered s1 \<and> 50 \<le> pressDuration
                         then (let s3 = s1\<lparr>lastActivity := now\<rparr>
                               in if powerSaveMode s3 then exitPowerSave s3 else s3)
                         else s1)
               in s2\<lparr>longPressTriggered := False, buttonPressed := False\<rparr>))
      else s\<lparr>buttonPressed := False\<rparr>)"

text \<open>
  The calls of \<^verbatim>\<open>handleButton\<close> that belong to one press: the handler is called with
  one (timestamp, pin level) pair per loop iteration until a call accepts the release
  (\<^verbatim>\<open>buttonDown\<close> becomes false).
\<close>

fun handleButton_until_release :: "(millis \<times> bool) list \<Rightarrow> app_state \<Rightarrow> app_state" where
  "handleButton_until_release [] s = s"
| "handleButton_until_release ((now, pressed) # ins) s =
     (let s' = handleButton now pressed s
      in if buttonDown s' then handleButton_until_release ins s' else s')"

section \<open>Photo control\<close>

text \<open>
  \<^verbatim>\<open>handlePhotoControl\<close> takes an \<^verbatim>\<open>int8_t\<close>; its comparisons are made after promotion
  to \<^verbatim>\<open>int\<close>, hence on \<open>sint\<close>. \<open>now\<close> is the value of \<^verbatim>\<open>millis()\<close>.
\<close>

definition handlePhotoControl :: "millis \<Rightarrow> byte \<Rightarrow> app_state \<Rightarrow> app_state" where
  "handlePhotoControl now controlValue s =
     (if sint controlValue = -1 then s\<lparr>isCapturingPhotos := True, captureInterval := 0\<rparr>
      else if sint controlValue = 0 then s\<lparr>isCapturingPhotos := False, captureInterval := 0\<rparr>
      else if 5 \<le> sint controlValue \<and> sint controlValue \<le> 300
      then s\<lparr>captureInterval := PHOTO_CAPTURE_INTERVAL_MS, isCapturingPhotos := True,
             lastCaptureTime := now - PHOTO_CAPTURE_INTERVAL_MS\<rparr>
      else s)"

text \<open>
  \<^verbatim>\<open>PhotoControlCallback::onWrite\<close>: a write of exactly one byte is converted to
  \<^verbatim>\<open>int8_t\<close> (the same bits, read as signed) and handled; any other length is ignored.
  \<open>t\<close> is the value of \<^verbatim>\<open>millis()\<close> in the callback and \<open>now\<close> its value in the
  handler.
\<close>

definition photoControl_onWrite :: "millis \<Rightarrow> millis \<Rightarrow> byte list \<Rightarrow> app_state \<Rightarrow> app_state" where
  "photoControl_onWrite t now bytes s =
     (if length bytes = 1 then handlePhotoControl now (hd bytes) (s\<lparr>lastActivity := t\<rparr>)
      else s)"

text \<open>The test of section 8 of \<^verbatim>\<open>loop_app\<close> that decides whether a capture is due.\<close>

definition capture_due :: "millis \<Rightarrow> app_state \<Rightarrow> bool" where
  "capture_due now s \<longleftrightarrow>
     isCapturingPhotos s \<and> \<not> photoDataUploading s \<and> connected s \<and>
     (captureInterval s = 0 \<or> captureInterval s \<le> now - lastCaptureTime s)"

section \<open>Audio packets\<close>

text \<open>
  \<^verbatim>\<open>broadcastAudioPacket\<close>: the notification is the three header bytes followed by the
  payload; the 16-bit packet index is incremented after the send.
\<close>

definition broadcastAudioPacket :: "byte list \<Rightarrow> app_state \<Rightarrow> app_state" where
  "broadcastAudioPacket data s =
     (if \<not> connected s \<or> \<not> audioSubscribed s \<or> \<not> audioCharPresent s then s
      else s\<lparr>trace := trace s @
                 [AudioNotify ([ucast (audioPacketIndex s AND 0xFF),
                                ucast (drop_bit 8 (audioPacketIndex s) AND 0xFF),
                                0] @ data)],
             audioPacketIndex := audioPacketIndex s + 1\<rparr>)"

text \<open>
  The packet ring buffer. \<open>maxb\<close> is \<^verbatim>\<open>OPUS_OUTPUT_MAX_BYTES\<close> and \<open>n\<close> is
  \<^verbatim>\<open>AUDIO_TX_BUFFER_SIZE\<close>, that is
  \<^verbatim>\<open>AUDIO_TX_RING_BUFFER_SIZE * (OPUS_OUTPUT_MAX_BYTES + 2)\<close>.
\<close>

definition AUDIO_TX_BUFFER_SIZE :: "nat \<Rightarrow> nat \<Rightarrow> nat" where
  "AUDIO_TX_BUFFER_SIZE slots maxb = slots * (maxb + 2)"

text \<open>The copy loop of \<^verbatim>\<open>onOpusEncoded\<close>: byte \<open>i\<close> of the payload goes to offset
  \<open>(pos + i) mod n\<close>.\<close>

fun write_bytes :: "nat \<Rightarrow> nat \<Rightarrow> byte list \<Rightarrow> byte list \<Rightarrow> byte list" where
  "write_bytes n pos [] buf = buf"
| "write_bytes n pos (d # ds) buf = write_bytes n (pos + 1) ds (buf[pos mod n := d])"

definition onOpusEncoded :: "nat \<Rightarrow> nat \<Rightarrow> byte list \<Rightarrow> app_state \<Rightarrow> app_state" where
  "onOpusEncoded maxb n data s =
     (let len = length data;
          w = audio_tx_write_pos s;
          r = audio_tx_read_pos s
      in if maxb < len then s
         else (let packet_size = len + 2;
                   next_write = (w + packet_size) mod n
               in if (w < r \<and> r \<le> next_write) \<or> (r \<le> w \<and> next_write < w \<and> r \<le> next_write)
                  then s
                  else s\<lparr>audio_tx_buffer :=
                           write_bytes n (w + 2) data
                             ((audio_tx_buffer s)
                                [w := of_nat (len mod 256),
                                 (w + 1) mod n := of_nat ((len div 256) mod 256)]),
                         audio_tx_write_pos := next_write\<rparr>))"

text \<open>The read loop of \<^verbatim>\<open>processAudioTx\<close>: \<open>len\<close> bytes starting at offset \<open>pos\<close>.\<close>

fun read_bytes :: "nat \<Rightarrow> nat \<Rightarrow> nat \<Rightarrow> byte list \<Rightarrow> byte list" where
  "read_bytes n pos 0 buf = []"
| "read_bytes n pos (Suc len) buf = buf ! (pos mod n) # read_bytes n (pos + 1) len buf"

text \<open>One pass through the body of the \<^verbatim>\<open>while\<close> loop of \<^verbatim>\<open>processAudioTx\<close>.\<close>

definition audio_tx_pop :: "nat \<Rightarrow> nat \<Rightarrow> app_state \<Rightarrow> app_state" where
  "audio_tx_pop maxb n s =
     (let r = audio_tx_read_pos s;
          buf = audio_tx_buffer s;
          len = unat (buf ! r) + 256 * unat (buf ! ((r + 1) mod n))
      in if len = 0 \<or> maxb < len then s\<lparr>audio_tx_read_pos := (r + 2) mod n\<rparr>
         else broadcastAudioPacket (read_bytes n (r + 2) len buf)
                (s\<lparr>audio_tx_read_pos := (r + 2 + len) mod n\<rparr>))"

text \<open>
  The loop runs until the read position meets the write position. Nothing in the code
  bounds the number of passes, so the loop is a partial function: \<open>None\<close> stands for a
  loop that never ends.
\<close>

partial_function (option) audio_tx_drain :: "nat \<Rightarrow> nat \<Rightarrow> app_state \<Rightarrow> app_state option" where
  "audio_tx_drain maxb n s =
     (if audio_tx_read_pos s \<noteq> audio_tx_write_pos s
      then audio_tx_drain maxb n (audio_tx_pop maxb n s)
      else Some s)"

declare audio_tx_drain.simps [code]

definition processAudioTx :: "nat \<Rightarrow> nat \<Rightarrow> app_state \<Rightarrow> app_state option" where
  "processAudioTx maxb n s =
     (if \<not> connected s \<or> \<not> audioSubscribed s then Some s
      else if \<not> audioCharPresent s then Some s
      else audio_tx_drain maxb n s)"

text \<open>Section 5 of \<^verbatim>\<open>loop_app\<close>.\<close>

definition loop_audio_tx :: "nat \<Rightarrow> nat \<Rightarrow> app_state \<Rightarrow> app_state option" where
  "loop_audio_tx maxb n s =
     (if connected s \<and> audioSubscribed s then processAudioTx maxb n s else Some s)"

text \<open>
  A session of the packet buffer: the encoder callback publishes a payload, the loop
  calls the sender, the client subscribes or unsubscribes.
\<close>

datatype tx_event = Publish "byte list" | Drain | Subscribe bool

fun tx_event_step :: "nat \<Rightarrow> nat \<Rightarrow> tx_event \<Rightarrow> app_state \<Rightarrow> app_state option" where
  "tx_event_step maxb n (Publish data) s = Some (onOpusEncoded maxb n data s)"
| "tx_event_step maxb n Drain s = loop_audio_tx maxb n s"
| "tx_event_step maxb n (Subscribe b) s = Some (s\<lparr>audioSubscribed := b\<rparr>)"

fun tx_run :: "nat \<Rightarrow> nat \<Rightarrow> tx_event list \<Rightarrow> app_state \<Rightarrow> app_state option" where
  "tx_run maxb n [] s = Some s"
| "tx_run maxb n (e # es) s =
     (case tx_event_step maxb n e s of None \<Rightarrow> None | Some s' \<Rightarrow> tx_run maxb n es s')"

section \<open>Photo transfer\<close>

text \<open>
  Section 9 of \<^verbatim>\<open>loop_app\<close>. \<open>pending\<close> is the value of the test
  \<^verbatim>\<open>audio_tx_read_pos != audio_tx_write_pos\<close> and \<open>now\<close> the timestamp of the iteration.
  \<^verbatim>\<open>fb->len\<close> is the length of the image, a \<^verbatim>\<open>size_t\<close>; the subtraction and the two
  increments are \<^verbatim>\<open>size_t\<close> operations, which wrap at \<open>2 ^ 32\<close>. After the test of the counter the chunk (or the
  terminator) is sent in both branches of the audio test.
\<close>

definition size_t_sub :: "nat \<Rightarrow> nat \<Rightarrow> nat" where
  "size_t_sub a b = (a + 2 ^ 32 - b) mod 2 ^ 32"

definition size_t_add :: "nat \<Rightarrow> nat \<Rightarrow> nat" where
  "size_t_add a b = (a + b) mod 2 ^ 32"

definition photo_tx_section :: "bool \<Rightarrow> millis \<Rightarrow> app_state \<Rightarrow> app_state" where
  "photo_tx_section pending now s =
     (if photoDataUploading s \<and> fb s \<noteq> None \<and> photo_chunks_this_loop s < 2 then
        (let img = the (fb s);
             s1 = (if audioSubscribed s \<and> pending
                   then s\<lparr>photo_chunks_this_loop := 0\<rparr>
                   else s\<lparr>photo_chunks_this_loop := photo_chunks_this_loop s + 1\<rparr>);
             remaining = size_t_sub (length img) (sent_photo_bytes s1)
         in if 0 < remaining then
              (let header = (if sent_photo_frames s1 = 0
                             then [0, 0, current_photo_orientation s1]
                             else [of_nat (sent_photo_frames s1 mod 256),
                                   of_nat ((sent_photo_frames s1 div 256) mod 256)]);
                   bytes_to_copy = (if sent_photo_frames s1 = 0
                                    then (if 199 < remaining then 199 else remaining)
                                    else (if 200 < remaining then 200 else remaining))
               in s1\<lparr>trace := trace s1 @
                         [PhotoNotify (header @ take bytes_to_copy (drop (sent_photo_bytes s1) img))],
                      sent_photo_bytes := size_t_add (sent_photo_bytes s1) bytes_to_copy,
                      sent_photo_frames := size_t_add (sent_photo_frames s1) 1,
                      lastActivity := now\<rparr>)
            else s1\<lparr>trace := trace s1 @ [PhotoNotify [0xFF, 0xFF]],
                    photoDataUploading := False,
                    fb := None,
                    photo_chunks_this_loop := 0\<rparr>)
      else s\<lparr>photo_chunks_this_loop := 0\<rparr>)"

definition loop_photo_tx :: "millis \<Rightarrow> app_state \<Rightarrow> app_state" where
  "loop_photo_tx now s =
     photo_tx_section (audio_tx_read_pos s \<noteq> audio_tx_write_pos s) now s"

text \<open>
  Successive loop iterations during an upload, one (timestamp, audio test) pair each.
  Between two iterations nothing else writes the variables of the transfer: a new capture
  starts only when \<^verbatim>\<open>photoDataUploading\<close> is false.
\<close>

fun photo_upload_run :: "(millis \<times> bool) list \<Rightarrow> app_state \<Rightarrow> app_state" where
  "photo_upload_run [] s = s"
| "photo_upload_run ((now, pending) # ins) s =
     photo_upload_run ins (photo_tx_section pending now s)"

text \<open>
  The start of an upload in section 8 of \<^verbatim>\<open>loop_app\<close>, once a capture is due and
  \<^verbatim>\<open>take_photo\<close> has returned the captured image \<open>img\<close> with the orientation tag
  \<open>orient\<close>; a single-shot request (interval 0) clears the capture flag.
\<close>

definition start_upload :: "millis \<Rightarrow> byte list \<Rightarrow> byte \<Rightarrow> app_state \<Rightarrow> app_state" where
  "start_upload now img orient s =
     s\<lparr>isCapturingPhotos := (if captureInterval s = 0 then False else isCapturingPhotos s),
       fb := Some img, current_photo_orientation := orient, lastActivity := now,
       photoDataUploading := True, sent_photo_bytes := 0, sent_photo_frames := 0,
       lastCaptureTime := now\<rparr>"

text \<open>
  The wire format of a complete upload in the words of the specification: chunk 0 is
  \<open>[0, 0, orientation]\<close> and the first 199 bytes, chunk \<open>k > 0\<close> is the 16-bit index
  \<open>k\<close>, low byte first, and the next 200 bytes, and one terminator \<open>[0xFF, 0xFF]\<close>
  follows the chunk that carries the last byte.
\<close>

definition spec_chunk_payload :: "byte list \<Rightarrow> nat \<Rightarrow> byte list" where
  "spec_chunk_payload img k =
     (if k = 0 then take 199 img else take 200 (drop (199 + 200 * (k - 1)) img))"

definition spec_chunk :: "byte \<Rightarrow> byte list \<Rightarrow> nat \<Rightarrow> byte list" where
  "spec_chunk orient img k =
     (if k = 0 then [0, 0, orient] else [of_nat (k mod 256), of_nat ((k div 256) mod 256)])
     @ spec_chunk_payload img k"

definition spec_chunk_count :: "nat \<Rightarrow> nat" where
  "spec_chunk_count len = (if len \<le> 199 then 1 else 1 + (len - 199 + 199) div 200)"

definition spec_upload :: "byte \<Rightarrow> byte list \<Rightarrow> effect list" where
  "spec_upload orient img =
     map (\<lambda>k. PhotoNotify (spec_chunk orient img k)) [0..<spec_chunk_count (length img)]
     @ [PhotoNotify [0xFF, 0xFF]]"

section \<open>Sample ring buffer\<close>

text \<open>
  The statics of \<^verbatim>\<open>opus_encoder.cpp\<close>. \<open>cap\<close> is \<^verbatim>\<open>AUDIO_RING_BUFFER_SAMPLES\<close>, the
  number of slots allocated for the buffer; \<open>None\<close> is the null pointer before
  \<^verbatim>\<open>opus_encoder_init\<close>.
\<close>

record pcm_ring =
  pcm_ring_buffer :: "sample list option"
  ring_write_pos :: nat
  ring_read_pos :: nat

text \<open>The body of the \<^verbatim>\<open>for\<close> loop of \<^verbatim>\<open>opus_receive_pcm\<close>.\<close>

definition pcm_push :: "nat \<Rightarrow> sample \<Rightarrow> pcm_ring \<Rightarrow> pcm_ring" where
  "pcm_push cap x r =
     (let next_write = (ring_write_pos r + 1) mod cap;
          r1 = (if next_write = ring_read_pos r
                then r\<lparr>ring_read_pos := (ring_read_pos r + 1) mod cap\<rparr> else r)
      in r1\<lparr>pcm_ring_buffer := map_option (\<lambda>buf. buf[ring_write_pos r1 := x]) (pcm_ring_buffer r1),
             ring_write_pos := next_write\<rparr>)"

definition opus_receive_pcm :: "nat \<Rightarrow> sample list \<Rightarrow> pcm_ring \<Rightarrow> int \<times> pcm_ring" where
  "opus_receive_pcm cap data r =
     (if pcm_ring_buffer r = None then (-1, r)
      else (0, foldl (\<lambda>r x. pcm_push cap x r) r data))"

definition ring_buffer_available :: "nat \<Rightarrow> pcm_ring \<Rightarrow> nat" where
  "ring_buffer_available cap r =
     (if ring_read_pos r \<le> ring_write_pos r then ring_write_pos r - ring_read_pos r
      else cap - ring_read_pos r + ring_write_pos r)"

text \<open>The read loop of \<^verbatim>\<open>opus_process\<close>: \<open>k\<close> samples are taken at the read position,
  which advances by one slot per sample.\<close>

fun pcm_pop :: "nat \<Rightarrow> nat \<Rightarrow> pcm_ring \<Rightarrow> sample list \<times> pcm_ring" where
  "pcm_pop cap 0 r = ([], r)"
| "pcm_pop cap (Suc k) r =
     (let x = the (pcm_ring_buffer r) ! ring_read_pos r;
          (xs, r') = pcm_pop cap k (r\<lparr>ring_read_pos := (ring_read_pos r + 1) mod cap\<rparr>)
      in (x # xs, r'))"

text \<open>What a reader obtains by taking every sample the buffer reports as available.\<close>

definition pcm_readable :: "nat \<Rightarrow> pcm_ring \<Rightarrow> sample list" where
  "pcm_readable cap r = fst (pcm_pop cap (ring_buffer_available cap r) r)"

text \<open>The state of an initialised buffer: allocated with \<open>cap\<close> slots, offsets inside.\<close>

definition pcm_ring_ok :: "nat \<Rightarrow> pcm_ring \<Rightarrow> bool" where
  "pcm_ring_ok cap r \<longleftrightarrow>
     0 < cap \<and> ring_write_pos r < cap \<and> ring_read_pos r < cap \<and>
     (case pcm_ring_buffer r of None \<Rightarrow> False | Some buf \<Rightarrow> length buf = cap)"

section \<open>Microphone gain\<close>

text \<open>
  The gain loop of \<^verbatim>\<open>mic_process\<close>, with \<open>gain\<close> the integer \<^verbatim>\<open>MIC_GAIN\<close>: the sample
  is sign-extended to 32 bits, multiplied in 32-bit arithmetic, clamped with signed
  comparisons and truncated to 16 bits.
\<close>

definition apply_gain :: "32 word \<Rightarrow> sample \<Rightarrow> sample" where
  "apply_gain gain x =
     (let sample0 = (scast x :: 32 word) * gain;
          sample1 = (if 32767 <s sample0 then 32767 else sample0);
          sample2 = (if sample1 <s -32768 then -32768 else sample1)
      in ucast sample2)"

text \<open>
  \<^verbatim>\<open>mic_process\<close>: \<open>running\<close> and \<open>have_buffer\<close> are the two guards at entry and
  \<open>have_callback\<close> says whether an audio callback is registered. \<open>read\<close> is what
  \<^verbatim>\<open>i2s_read\<close> delivered: \<open>None\<close> on an error, otherwise the number of bytes read
  and the contents of the read buffer. The number of samples is the number of bytes
  divided by two, rounded down, so a read of a single byte hands an empty block to the
  callback. The result is the sample block handed to the callback, if one is handed over.
\<close>

definition mic_process ::
  "32 word \<Rightarrow> bool \<Rightarrow> bool \<Rightarrow> bool \<Rightarrow> (nat \<times> sample list) option \<Rightarrow> sample list option" where
  "mic_process gain running have_buffer have_callback read =
     (if \<not> running \<or> \<not> have_buffer then None
      else case read of
             None \<Rightarrow> None
           | Some (bytes_read, buf) \<Rightarrow>
               if 0 < bytes_read then
                 (let samples_read = bytes_read div 2;
                      block = take samples_read buf;
                      block' = (if gain \<noteq> 1 then map (apply_gain gain) block else block)
                  in if have_callback then Some block' else None)
               else None)"

section \<open>Observations on runs\<close>

text \<open>
  The values of the globals after their static initialisers, before \<^verbatim>\<open>setup_app\<close>:
  every flag, offset, counter and timestamp is zero or false except
  \<^verbatim>\<open>lightSleepEnabled\<close> and the LED mode, the frame pointer and the characteristic
  pointers are null, and the packet buffer of \<open>n\<close> bytes is zero-filled.
\<close>

definition app_init :: "nat \<Rightarrow> app_state" where
  "app_init n =
     \<lparr>connected = False, audioSubscribed = False, audioCharPresent = False,
      audioPacketIndex = 0, audio_tx_buffer = replicate n 0,
      audio_tx_write_pos = 0, audio_tx_read_pos = 0,
      photoDataUploading = False, fb = None, sent_photo_bytes = 0, sent_photo_frames = 0,
      photo_chunks_this_loop = 0, current_photo_orientation = 0,
      isCapturingPhotos = False, captureInterval = 0, lastCaptureTime = 0,
      lastActivity = 0, powerSaveMode = False, lightSleepEnabled = True,
      buttonPressTime = 0, lastDebounceTime = 0, buttonDown = False,
      longPressTriggered = False, buttonPressed = False, ledMode = LED_BOOT_SEQUENCE,
      trace = []\<rparr>"

text \<open>The state once \<^verbatim>\<open>configure_ble\<close> has created the audio characteristic and a
  client has connected and subscribed to audio.\<close>

definition app_streaming :: "nat \<Rightarrow> app_state" where
  "app_streaming n = (app_init n)\<lparr>connected := True, audioSubscribed := True, audioCharPresent := True\<rparr>"

text \<open>A connected client with interval capture running: the last capture and the last
  activity were at 1000 ms.\<close>

definition app_capturing :: "nat \<Rightarrow> app_state" where
  "app_capturing n =
     (app_init n)\<lparr>connected := True, isCapturingPhotos := True,
                  captureInterval := PHOTO_CAPTURE_INTERVAL_MS,
                  lastCaptureTime := 1000, lastActivity := 1000\<rparr>"

text \<open>The sequence number a receiver reads in the first two bytes of an audio
  notification, low byte first.\<close>

fun audio_seq :: "effect \<Rightarrow> 16 word option" where
  "audio_seq (AudioNotify (lo # hi # rest)) = Some (ucast lo OR push_bit 8 (ucast hi))"
| "audio_seq _ = None"

definition audio_seqs :: "effect list \<Rightarrow> 16 word list" where
  "audio_seqs t = List.map_filter audio_seq t"

text \<open>The payloads of the audio notifications of a trace, after the three header bytes.\<close>

fun audio_payload :: "effect \<Rightarrow> byte list option" where
  "audio_payload (AudioNotify bs) = Some (drop 3 bs)"
| "audio_payload _ = None"

definition audio_payloads :: "effect list \<Rightarrow> byte list list" where
  "audio_payloads t = List.map_filter audio_payload t"

text \<open>The payloads that the encoder handed to the publish operation during a session.\<close>

fun published :: "tx_event list \<Rightarrow> byte list list" where
  "published [] = []"
| "published (Publish d # es) = d # published es"
| "published (e # es) = published es"

fun is_cpu_switch :: "effect \<Rightarrow> bool" where
  "is_cpu_switch (SetCpuFrequencyMhz f) = True"
| "is_cpu_switch _ = False"

definition cpu_switches :: "app_state \<Rightarrow> nat" where
  "cpu_switches s = length (filter is_cpu_switch (trace s))"

text \<open>
  Repeated evaluation of the power-mode check and of the light-sleep check, one triple
  (timestamp of the iteration, timestamp read by the sleep routine, timestamp after a
  possible sleep) per loop iteration, while no callback changes the connection or the
  upload.
\<close>

fun power_eval_run :: "(millis \<times> millis \<times> millis) list \<Rightarrow> app_state \<Rightarrow> app_state" where
  "power_eval_run [] s = s"
| "power_eval_run ((now, now', wake) # ins) s =
     power_eval_run ins (loop_sleep now' wake (loop_power now s))"

text \<open>
  The power mode agrees with the inputs of the power-mode check: normal clock while
  connected or uploading, reduced clock otherwise.
\<close>

definition power_settled :: "app_state \<Rightarrow> bool" where
  "power_settled s \<longleftrightarrow>
     (if connected s \<or> photoDataUploading s then \<not> powerSaveMode s else powerSaveMode s)"

text \<open>
  The audio notifications sent between two states carry consecutive sequence numbers,
  starting at the packet index of the first state, and the packet index of the second
  state is the next number.
\<close>

definition seq_chain :: "app_state \<Rightarrow> app_state \<Rightarrow> bool" where
  "seq_chain s0 s \<longleftrightarrow>
     (\<exists>m. audio_seqs (trace s) =
            audio_seqs (trace s0) @ map (\<lambda>k. audioPacketIndex s0 + of_nat k) [0..<m] \<and>
          audioPacketIndex s = audioPacketIndex s0 + of_nat m)"

text \<open>The offset in the image at which chunk \<open>k\<close> starts.\<close>

definition chunk_offset :: "nat \<Rightarrow> nat" where
  "chunk_offset k = (if k = 0 then 0 else 199 + 200 * (k - 1))"

text \<open>The state of an upload of \<open>img\<close> that has sent the chunks before chunk \<open>k\<close>.\<close>

definition upload_inv :: "byte list \<Rightarrow> nat \<Rightarrow> app_state \<Rightarrow> bool" where
  "upload_inv img k s \<longleftrightarrow>
     photoDataUploading s \<and> fb s = Some img \<and> sent_photo_frames s = k \<and>
     k \<le> spec_chunk_count (length img) \<and>
     sent_photo_bytes s = min (length img) (chunk_offset k)"

text \<open>The notifications of the chunks \<open>k\<close> to \<open>k' - 1\<close> of an upload.\<close>

definition chunk_notes :: "byte \<Rightarrow> byte list \<Rightarrow> nat \<Rightarrow> nat \<Rightarrow> effect list" where
  "chunk_notes orient img k k' = map (\<lambda>j. PhotoNotify (spec_chunk orient img j)) [k..<k']"

text \<open>The sample buffer after \<^verbatim>\<open>opus_encoder_init\<close>: \<open>cap\<close> slots allocated, both
  offsets zero.\<close>

definition pcm_ring_init :: "nat \<Rightarrow> pcm_ring" where
  "pcm_ring_init cap =
     \<lparr>pcm_ring_buffer = Some (replicate cap 0), ring_write_pos = 0, ring_read_pos = 0\<rparr>"

text \<open>The last \<open>m\<close> elements of a list, in their order.\<close>

definition last_n :: "nat \<Rightarrow> 'a list \<Rightarrow> 'a list" where
  "last_n m xs = drop (length xs - m) xs"

section \<open>Microphone gain: saturation\<close>

lemma sint_scast_16_32: "sint (scast (x :: 16 word) :: 32 word) = sint x"
  by (simp add: sint_up_scast is_up)

lemma sint16_bounds: "- 32768 \<le> sint (x :: 16 word) \<and> sint x \<le> 32767"
  using sint_ge [of x] sint_lt [of x] by simp

lemma gain_product_bounds:
  fixes a g :: int
  assumes "- 32768 \<le> a" "a \<le> 32767" "\<bar>g\<bar> \<le> 65535"
  shows "- (2 ^ 31) \<le> a * g \<and> a * g < 2 ^ 31"
proof -
  have "\<bar>a\<bar> \<le> 32768" using assms by linarith
  then have "\<bar>a\<bar> * \<bar>g\<bar> \<le> 32768 * 65535"
    using assms(3) by (intro mult_mono) auto
  then have "\<bar>a * g\<bar> \<le> 2147450880" by (simp add: abs_mult)
  then have "- 2147450880 \<le> a * g \<and> a * g \<le> 2147450880" by linarith
  then show ?thesis by simp
qed

lemma sint_gain_mult:
  assumes "\<bar>sint gain\<bar> \<le> 65535"
  shows "sint ((scast (x :: 16 word) :: 32 word) * gain) = sint x * sint gain"
proof -
  have b: "- (2 ^ 31) \<le> sint x * sint gain \<and> sint x * sint gain < 2 ^ 31"
    using gain_product_bounds [of "sint x" "sint gain"] sint16_bounds [of x] assms by simp
  have "sint ((scast x :: 32 word) * gain) = signed_take_bit 31 (sint x * sint gain)"
    by (simp add: sint_word_ariths sint_scast_16_32)
  also have "\<dots> = sint x * sint gain"
    using b by (simp add: signed_take_bit_int_eq_self)
  finally show ?thesis .
qed

lemma sint_ucast_32_16:
  assumes "- 32768 \<le> sint (w :: 32 word)" "sint w \<le> 32767"
  shows "sint (ucast w :: 16 word) = sint w"
proof -
  have "(ucast w :: 16 word) = scast w"
    by (simp add: down_cast_same is_down)
  also have "\<dots> = word_of_int (sint w)" by simp
  finally have "sint (ucast w :: 16 word) = signed_take_bit 15 (sint w)"
    by (simp only: sint_sbintrunc') simp
  then show ?thesis
    using assms by (simp add: signed_take_bit_int_eq_self)
qed

lemma apply_gain_sint:
  assumes "\<bar>sint gain\<bar> \<le> 65535"
  shows "sint (apply_gain gain x) = max (- 32768) (min 32767 (sint x * sint gain))"
proof -
  let ?p = "(scast x :: 32 word) * gain"
  have p: "sint ?p = sint x * sint gain" by (rule sint_gain_mult [OF assms])
  show ?thesis
    unfolding apply_gain_def Let_def
    using p by (auto simp: word_sless_alt sint_ucast_32_16)
qed

text \<open>
  C10 (as amended). With an integer gain other than 1 whose magnitude is at most 65535, so
  that the product of a 16-bit sample and the gain fits the 32-bit arithmetic the code
  uses, every sample handed to the audio callback is the input sample times the gain,
  saturated to the signed 16-bit range: 32767 above it, -32768 below it. The block is the
  first \<open>bytes_read div 2\<close> samples of the read buffer.
\<close>

theorem mic_gain_saturates:
  assumes "\<bar>sint gain\<bar> \<le> 65535" and "gain \<noteq> 1"
    and "mic_process gain running have_buffer have_callback read = Some out"
  shows "\<exists>bytes_read buf.
           read = Some (bytes_read, buf) \<and> 0 < bytes_read \<and>
           length out = min (bytes_read div 2) (length buf) \<and>
           (\<forall>i < length out.
              sint (out ! i) = max (- 32768) (min 32767 (sint (buf ! i) * sint gain)))"
proof -
  from assms(3) obtain bytes_read buf where rd: "read = Some (bytes_read, buf)"
    and pos: "0 < bytes_read"
    and out: "out = map (apply_gain gain) (take (bytes_read div 2) buf)"
    using assms(2)
    by (auto simp: mic_process_def Let_def split: if_splits option.splits prod.splits)
  have len: "length out = min (bytes_read div 2) (length buf)"
    by (simp add: out min.commute)
  have "sint (out ! i) = max (- 32768) (min 32767 (sint (buf ! i) * sint gain))"
    if "i < length out" for i
  proof -
    from that have "i < bytes_read div 2" "i < length buf" by (simp_all add: len)
    then have "out ! i = apply_gain gain (buf ! i)" by (simp add: out)
    then show ?thesis by (simp add: apply_gain_sint [OF assms(1)])
  qed
  with rd pos len show ?thesis by blast
qed

theorem mic_gain_saturates_witness:
  "\<bar>sint (2 :: 32 word)\<bar> \<le> 65535 \<and> (2 :: 32 word) \<noteq> 1 \<and>
   mic_process 2 True True True (Some (6, [20000, - 20000, 100, 7])) = Some [32767, - 32768, 200] \<and>
   sint ([32767, - 32768, 200 :: sample] ! 1)
     = max (- 32768) (min 32767 (sint ([20000, - 20000, 100, 7 :: sample] ! 1) * 2)) \<and>
   mic_process 2 True True True (Some (1, [20000, - 20000, 100, 7])) = Some []"
proof -
  have run: "mic_process 2 True True True (Some (6, [20000, - 20000, 100, 7]))
               = Some [32767, - 32768, 200]"
    by (simp add: mic_process_def apply_gain_def word_sless_alt)
  have empty: "mic_process 2 True True True (Some (1, [20000, - 20000, 100, 7])) = Some []"
    by (simp add: mic_process_def)
  have g: "\<bar>sint (2 :: 32 word)\<bar> \<le> 65535" "(2 :: 32 word) \<noteq> 1" by simp_all
  from mic_gain_saturates [OF g run]
  have "sint ([32767, - 32768, 200 :: sample] ! 1)
          = max (- 32768) (min 32767 (sint ([20000, - 20000, 100, 7 :: sample] ! 1) * sint (2 :: 32 word)))"
    by auto
  with run empty g show ?thesis by simp
qed

text \<open>
  The claim as stated, for any gain other than 1, fails for a gain beyond that bound: with
  the gain 70000 the 32-bit product of the sample 32767 wraps to a negative value, and the
  callback receives -32768 where the saturated product is 32767.
\<close>

theorem mic_gain_overflow_counterexample:
  "(70000 :: 32 word) \<noteq> 1 \<and>
   mic_process 70000 True True True (Some (2, [32767])) = Some [- 32768] \<and>
   max (- 32768) (min 32767 (sint (32767 :: sample) * sint (70000 :: 32 word))) = 32767 \<and>
   sint (- 32768 :: sample) \<noteq> 32767"
  by (simp add: mic_process_def apply_gain_def word_sless_alt)

section \<open>Button: long press excludes short press\<close>

lemma handleButton_after_long_press:
  assumes "buttonDown s" "longPressTriggered s"
  shows "lastActivity (handleButton now pressed s) = lastActivity s \<and>
         powerSaveMode (handleButton now pressed s) = powerSaveMode s \<and>
         trace (handleButton now pressed s) = trace s \<and>
         (buttonDown (handleButton now pressed s) \<longrightarrow> longPressTriggered (handleButton now pressed s))"
  using assms by (simp add: handleButton_def Let_def)

lemma until_release_after_long_press:
  "buttonDown s \<Longrightarrow> longPressTriggered s \<Longrightarrow>
   lastActivity (handleButton_until_release ins s) = lastActivity s \<and>
   powerSaveMode (handleButton_until_release ins s) = powerSaveMode s \<and>
   trace (handleButton_until_release ins s) = trace s"
proof (induction ins arbitrary: s)
  case Nil
  then show ?case by simp
next
  case (Cons a ins)
  obtain now pressed where a: "a = (now, pressed)" by (cases a)
  let ?s' = "handleButton now pressed s"
  from handleButton_after_long_press [OF Cons.prems, of now pressed]
  have st: "lastActivity ?s' = lastActivity s" "powerSaveMode ?s' = powerSaveMode s"
    "trace ?s' = trace s" "buttonDown ?s' \<longrightarrow> longPressTriggered ?s'" by simp_all
  show ?case
  proof (cases "buttonDown ?s'")
    case True
    then show ?thesis using Cons.IH [of ?s'] st by (simp add: a)
  next
    case False
    then show ?thesis using st by (simp add: a)
  qed
qed

text \<open>For comparison, the release of a press that stayed below the long-press threshold
  is a short press: it refreshes the activity timestamp and leaves power-save mode.\<close>

lemma short_press_refreshes_activity:
  assumes "buttonDown s" "\<not> longPressTriggered s"
    and "\<not> now - lastDebounceTime s < 50" "50 \<le> now - buttonPressTime s"
  shows "lastActivity (handleButton now False s) = now \<and>
         \<not> powerSaveMode (handleButton now False s)"
  using assms by (simp add: handleButton_def Let_def exitPowerSave_def)

text \<open>
  C7. When a call of the button handler finds the button held for at least 2000 ms and
  fires the long press (the LED switches to the power-off sequence), then whatever calls
  follow until the release of that press is accepted, however long the button stays down,
  they change neither the activity timestamp nor the power-save mode nor the CPU clock:
  the release is not treated as a short press.
\<close>

theorem long_press_release_not_short_press:
  assumes "buttonDown s" and "\<not> longPressTriggered s" and "2000 \<le> now - buttonPressTime s"
  shows "ledMode (handleButton now True s) = LED_POWER_OFF_SEQUENCE \<and>
         longPressTriggered (handleButton now True s) \<and>
         lastActivity (handleButton_until_release ins (handleButton now True s)) = lastActivity s \<and>
         powerSaveMode (handleButton_until_release ins (handleButton now True s)) = powerSaveMode s \<and>
         trace (handleButton_until_release ins (handleButton now True s)) = trace s"
proof -
  let ?s1 = "handleButton now True s"
  have fired: "buttonDown ?s1" "longPressTriggered ?s1" "ledMode ?s1 = LED_POWER_OFF_SEQUENCE"
    "lastActivity ?s1 = lastActivity s" "powerSaveMode ?s1 = powerSaveMode s" "trace ?s1 = trace s"
    using assms by (simp_all add: handleButton_def Let_def)
  from until_release_after_long_press [OF fired(1,2), of ins] fired show ?thesis by simp
qed

theorem long_press_release_not_short_press_witness:
  "buttonDown ((app_init 0)\<lparr>buttonDown := True, buttonPressTime := 100, lastDebounceTime := 100,
                            powerSaveMode := True\<rparr>) \<and>
   (2000 :: millis) \<le> 2100 - 100 \<and>
   lastActivity (handleButton_until_release [(3000, True), (9000, False)]
      (handleButton 2100 True
         ((app_init 0)\<lparr>buttonDown := True, buttonPressTime := 100, lastDebounceTime := 100,
                       powerSaveMode := True\<rparr>))) = 0 \<and>
   powerSaveMode (handleButton_until_release [(3000, True), (9000, False)]
      (handleButton 2100 True
         ((app_init 0)\<lparr>buttonDown := True, buttonPressTime := 100, lastDebounceTime := 100,
                       powerSaveMode := True\<rparr>))) \<and>
   \<not> buttonDown (handleButton_until_release [(3000, True), (9000, False)]
      (handleButton 2100 True
         ((app_init 0)\<lparr>buttonDown := True, buttonPressTime := 100, lastDebounceTime := 100,
                       powerSaveMode := True\<rparr>)))"
  using long_press_release_not_short_press
    [of "(app_init 0)\<lparr>buttonDown := True, buttonPressTime := 100, lastDebounceTime := 100,
                      powerSaveMode := True\<rparr>" 2100 "[(3000, True), (9000, False)]"]
  by (simp add: app_init_def handleButton_def)

section \<open>Power save: idempotence\<close>

lemma power_step_settled:
  assumes "power_settled s"
  shows "power_settled (loop_sleep now' wake (loop_power now s)) \<and>
         cpu_switches (loop_sleep now' wake (loop_power now s)) = cpu_switches s"
  using assms
  by (auto simp: power_settled_def loop_sleep_def loop_power_def enableLightSleep_def
      enterPowerSave_def exitPowerSave_def cpu_switches_def Let_def split: if_splits)

lemma power_step_unsettled:
  assumes "\<not> power_settled s"
  shows "(power_settled (loop_sleep now' wake (loop_power now s)) \<and>
          cpu_switches (loop_sleep now' wake (loop_power now s)) = cpu_switches s + 1) \<or>
         (\<not> power_settled (loop_sleep now' wake (loop_power now s)) \<and>
          cpu_switches (loop_sleep now' wake (loop_power now s)) = cpu_switches s)"
  using assms
  by (auto simp: power_settled_def loop_sleep_def loop_power_def enableLightSleep_def
      enterPowerSave_def exitPowerSave_def cpu_switches_def Let_def split: if_splits)

lemma power_run_settled:
  "power_settled s \<Longrightarrow> cpu_switches (power_eval_run ins s) = cpu_switches s"
proof (induction ins arbitrary: s)
  case Nil
  then show ?case by simp
next
  case (Cons a ins)
  obtain now now' wake where a: "a = (now, now', wake)" by (cases a)
  show ?case using Cons.IH [of "loop_sleep now' wake (loop_power now s)"]
      power_step_settled [OF Cons.prems, of now' wake now] by (simp add: a)
qed

lemma power_run_bound:
  "cpu_switches (power_eval_run ins s) \<le> cpu_switches s + 1"
proof (induction ins arbitrary: s)
  case Nil
  then show ?case by simp
next
  case (Cons a ins)
  obtain now now' wake where a: "a = (now, now', wake)" by (cases a)
  let ?s' = "loop_sleep now' wake (loop_power now s)"
  show ?case
  proof (cases "power_settled s")
    case True
    then show ?thesis using power_run_settled [OF True, of "a # ins"] by simp
  next
    case False
    from power_step_unsettled [OF False, of now' wake now]
    show ?thesis
    proof
      assume h: "power_settled ?s' \<and> cpu_switches ?s' = cpu_switches s + 1"
      then show ?thesis using power_run_settled [of ?s' ins] by (simp add: a)
    next
      assume h: "\<not> power_settled ?s' \<and> cpu_switches ?s' = cpu_switches s"
      then show ?thesis using Cons.IH [of ?s'] by (simp add: a)
    qed
  qed
qed

text \<open>
  C8. Entering power-save mode when already in it and leaving it when already out of it
  leave the whole state unchanged, and both operations are idempotent. Over any number of
  loop iterations in which only the clock advances (the power-mode check followed by the
  light-sleep check, connection and upload untouched), the CPU frequency is set at most
  once.
\<close>

theorem power_save_idempotent:
  "enterPowerSave (s\<lparr>powerSaveMode := True\<rparr>) = s\<lparr>powerSaveMode := True\<rparr> \<and>
   exitPowerSave (s\<lparr>powerSaveMode := False\<rparr>) = s\<lparr>powerSaveMode := False\<rparr> \<and>
   enterPowerSave (enterPowerSave s) = enterPowerSave s \<and>
   exitPowerSave (exitPowerSave s) = exitPowerSave s \<and>
   cpu_switches (power_eval_run ins s) \<le> cpu_switches s + 1"
  using power_run_bound [of ins s] by (simp add: enterPowerSave_def exitPowerSave_def)

theorem power_save_idempotent_witness:
  "cpu_switches (app_init 0) = 0 \<and>
   cpu_switches (power_eval_run [(10000, 10001, 10001), (50000, 50001, 50001), (60000, 60001, 60001)] (app_init 0)) = 1 \<and>
   powerSaveMode (power_eval_run [(10000, 10001, 10001), (50000, 50001, 50001), (60000, 60001, 60001)] (app_init 0)) \<and>
   enterPowerSave (enterPowerSave (app_init 0)) = enterPowerSave (app_init 0)"
  using power_save_idempotent [of "app_init 0" "[(10000, 10001, 10001), (50000, 50001, 50001), (60000, 60001, 60001)]"]
  by (simp add: app_init_def cpu_switches_def loop_power_def loop_sleep_def enableLightSleep_def
      enterPowerSave_def IDLE_THRESHOLD_MS_def)

section \<open>Audio sequence numbers\<close>

lemma mask8_16: "(0xFF :: 16 word) = mask 8"
  by (simp add: mask_eq_exp_minus_1)

lemma seq_header_roundtrip:
  "ucast (ucast ((i :: 16 word) AND 0xFF) :: byte) OR push_bit 8 (ucast (ucast (drop_bit 8 i AND 0xFF) :: byte)) = i"
  unfolding mask8_16
  apply (rule bit_word_eqI)
  apply (auto simp: bit_simps)
  done

lemma seq_chain_refl: "seq_chain s s"
  unfolding seq_chain_def by (rule exI [of _ 0]) simp

lemma seq_chain_same:
  "seq_chain s0 s \<Longrightarrow> trace s' = trace s \<Longrightarrow> audioPacketIndex s' = audioPacketIndex s \<Longrightarrow> seq_chain s0 s'"
  by (simp add: seq_chain_def)

lemma audio_seqs_snoc:
  "audio_seqs (t @ [AudioNotify (lo # hi # rest)]) = audio_seqs t @ [ucast lo OR push_bit 8 (ucast hi)]"
  by (simp add: audio_seqs_def List.map_filter_def)

lemma seq_chain_broadcast:
  assumes "seq_chain s0 s"
  shows "seq_chain s0 (broadcastAudioPacket d s)"
proof (cases "connected s \<and> audioSubscribed s \<and> audioCharPresent s")
  case False
  then show ?thesis using assms by (auto simp: broadcastAudioPacket_def)
next
  case True
  from assms obtain m where m:
    "audio_seqs (trace s) = audio_seqs (trace s0) @ map (\<lambda>k. audioPacketIndex s0 + of_nat k) [0..<m]"
    "audioPacketIndex s = audioPacketIndex s0 + of_nat m"
    by (auto simp: seq_chain_def)
  show ?thesis
    unfolding seq_chain_def
    apply (rule exI [of _ "Suc m"])
    using True m
    apply (simp add: broadcastAudioPacket_def audio_seqs_snoc seq_header_roundtrip)
    done
qed

lemma seq_chain_pop: "seq_chain s0 s \<Longrightarrow> seq_chain s0 (audio_tx_pop maxb n s)"
  unfolding audio_tx_pop_def Let_def
  by (auto intro!: seq_chain_broadcast elim: seq_chain_same)

lemma audio_tx_drain_iterates:
  "audio_tx_drain maxb n s = Some s' \<Longrightarrow> \<exists>k. s' = (audio_tx_pop maxb n ^^ k) s"
proof (rule audio_tx_drain.raw_induct
    [where P = "\<lambda>maxb n s s'. \<exists>k. s' = (audio_tx_pop maxb n ^^ k) s"])
  fix drain :: "nat \<Rightarrow> nat \<Rightarrow> app_state \<Rightarrow> app_state option" and maxb n s y
  assume IH: "\<And>maxb n s y. drain maxb n s = Some y \<Longrightarrow> \<exists>k. y = (audio_tx_pop maxb n ^^ k) s"
    and body: "(if audio_tx_read_pos s \<noteq> audio_tx_write_pos s
                then drain maxb n (audio_tx_pop maxb n s) else Some s) = Some y"
  show "\<exists>k. y = (audio_tx_pop maxb n ^^ k) s"
  proof (cases "audio_tx_read_pos s \<noteq> audio_tx_write_pos s")
    case True
    with body have "drain maxb n (audio_tx_pop maxb n s) = Some y" by simp
    from IH [OF this] obtain k where "y = (audio_tx_pop maxb n ^^ k) (audio_tx_pop maxb n s)" ..
    then have "y = (audio_tx_pop maxb n ^^ Suc k) s" by (simp add: funpow_swap1)
    then show ?thesis ..
  next
    case False
    with body have "y = (audio_tx_pop maxb n ^^ 0) s" by simp
    then show ?thesis ..
  qed
qed

lemma seq_chain_funpow: "seq_chain s0 s \<Longrightarrow> seq_chain s0 ((audio_tx_pop maxb n ^^ k) s)"
  by (induction k) (auto intro: seq_chain_pop)

lemma seq_chain_drain:
  "audio_tx_drain maxb n s = Some s' \<Longrightarrow> seq_chain s0 s \<Longrightarrow> seq_chain s0 s'"
  using audio_tx_drain_iterates seq_chain_funpow by blast

lemma seq_chain_publish: "seq_chain s0 s \<Longrightarrow> seq_chain s0 (onOpusEncoded maxb n d s)"
  unfolding onOpusEncoded_def Let_def by (auto elim: seq_chain_same)

lemma seq_chain_event:
  "tx_event_step maxb n e s = Some s' \<Longrightarrow> seq_chain s0 s \<Longrightarrow> seq_chain s0 s'"
  by (cases e)
     (auto simp: loop_audio_tx_def processAudioTx_def split: if_splits
           intro: seq_chain_publish seq_chain_drain elim: seq_chain_same)

lemma seq_chain_run:
  "tx_run maxb n es s = Some s' \<Longrightarrow> seq_chain s0 s \<Longrightarrow> seq_chain s0 s'"
proof (induction es arbitrary: s)
  case Nil
  then show ?case by simp
next
  case (Cons e es)
  then show ?case by (auto split: option.splits dest: seq_chain_event)
qed

text \<open>
  C5. Over any session of the packet buffer (payloads published by the encoder, calls of
  the sender, subscription changes), the sequence numbers carried by the audio
  notifications actually sent are consecutive 16-bit values starting at the packet index
  of the initial state, and the final packet index is the number after the last one sent:
  one increment per transmitted packet. A send that is skipped because the link is down,
  audio is not subscribed or the characteristic is absent changes nothing, publishing a
  packet leaves the index alone, and the increment wraps from 65535 to 0.
\<close>

theorem audio_sequence_number:
  "(tx_run maxb n es s = Some s' \<longrightarrow>
      (\<exists>m. audio_seqs (trace s') =
             audio_seqs (trace s) @ map (\<lambda>k. audioPacketIndex s + of_nat k) [0..<m] \<and>
           audioPacketIndex s' = audioPacketIndex s + of_nat m)) \<and>
   (connected s \<and> audioSubscribed s \<and> audioCharPresent s \<longrightarrow>
      audioPacketIndex (broadcastAudioPacket d s) = audioPacketIndex s + 1 \<and>
      audio_seqs (trace (broadcastAudioPacket d s)) = audio_seqs (trace s) @ [audioPacketIndex s] \<and>
      unat (audioPacketIndex (broadcastAudioPacket d s)) = (unat (audioPacketIndex s) + 1) mod 65536) \<and>
   (\<not> connected s \<or> \<not> audioSubscribed s \<or> \<not> audioCharPresent s \<longrightarrow>
      broadcastAudioPacket d s = s) \<and>
   audioPacketIndex (onOpusEncoded maxb n d s) = audioPacketIndex s \<and>
   (65535 :: 16 word) + 1 = 0"
proof -
  have run: "tx_run maxb n es s = Some s' \<longrightarrow> seq_chain s s'"
    using seq_chain_run [OF _ seq_chain_refl] by blast
  have pub: "audioPacketIndex (onOpusEncoded maxb n d s) = audioPacketIndex s"
    by (simp add: onOpusEncoded_def Let_def)
  have wrap: "unat (audioPacketIndex s + 1) = (unat (audioPacketIndex s) + 1) mod 65536"
    by (simp add: unat_word_ariths)
  show ?thesis
    using run pub wrap
    by (auto simp: seq_chain_def broadcastAudioPacket_def audio_seqs_snoc seq_header_roundtrip)
qed


lemma read_bytes_unfold:
  "read_bytes n pos len buf =
     (if len = 0 then [] else buf ! (pos mod n) # read_bytes n (pos + 1) (len - 1) buf)"
  by (cases len) simp_all

theorem audio_sequence_number_witness:
  "\<exists>s'. tx_run 4 18 [Publish [1, 2], Publish [3], Drain, Subscribe False, Publish [4], Drain]
           ((app_streaming 18)\<lparr>audioPacketIndex := 65535\<rparr>) = Some s' \<and>
        trace s' = [AudioNotify [255, 255, 0, 1, 2], AudioNotify [0, 0, 0, 3]] \<and>
        audio_seqs (trace s') = [65535, 0] \<and> audioPacketIndex s' = 1"
proof -
  let ?s = "(app_streaming 18)\<lparr>audioPacketIndex := 65535\<rparr>"
  let ?es = "[Publish [1, 2], Publish [3], Drain, Subscribe False, Publish [4], Drain]"
  have "\<exists>s'. tx_run 4 18 ?es ?s = Some s' \<and>
          trace s' = [AudioNotify [255, 255, 0, 1, 2], AudioNotify [0, 0, 0, 3]] \<and>
          audioPacketIndex s' = 1"
    by (simp add: app_streaming_def app_init_def onOpusEncoded_def loop_audio_tx_def
        processAudioTx_def audio_tx_drain.simps audio_tx_pop_def broadcastAudioPacket_def
        Let_def read_bytes_unfold)
  then obtain s' where run: "tx_run 4 18 ?es ?s = Some s'"
    and tr: "trace s' = [AudioNotify [255, 255, 0, 1, 2], AudioNotify [0, 0, 0, 3]]"
    and idx: "audioPacketIndex s' = 1" by blast
  have sq: "audio_seqs (trace s') = [65535, 0]"
    by (simp add: tr audio_seqs_def List.map_filter_def)
  from audio_sequence_number [of 4 18 ?es ?s s'] run
  have "\<exists>m. audio_seqs (trace s') =
             audio_seqs (trace ?s) @ map (\<lambda>k. audioPacketIndex ?s + of_nat k) [0..<m] \<and>
            audioPacketIndex s' = audioPacketIndex ?s + of_nat m"
    by blast
  with run tr sq idx show ?thesis by blast
qed

section \<open>Light sleep\<close>

lemma sleep_time_bound:
  assumes "10000 < (h :: 32 word)"
  shows "unat (min (h - 5000) 15000) + 5000 \<le> unat h"
proof -
  have "5000 \<le> h" using assms by (simp add: word_le_nat_alt word_less_nat_alt)
  then have "unat (h - 5000) = unat h - 5000" by (simp add: unat_sub)
  moreover have "unat (min (h - 5000) 15000) \<le> unat (h - 5000)"
    by (simp add: word_le_nat_alt [symmetric])
  moreover have "10000 < unat h" using assms by (simp add: word_less_nat_alt)
  ultimately show ?thesis by simp
qed

lemma sleep_time_min:
  "(if 15000 < (x :: 32 word) then 15000 else x) = min x 15000"
proof (cases "15000 < x")
  case True
  then have "\<not> x \<le> 15000" by (simp add: not_le)
  with True show ?thesis by (simp add: min_def)
next
  case False
  then have "x \<le> 15000" by (simp add: not_less)
  with False show ?thesis by (simp add: min_def)
qed

lemma no_sleep_small_headroom:
  "timeUntilNextPhoto now s \<le> 10000 \<Longrightarrow> enableLightSleep now wake s = s"
  by (simp add: enableLightSleep_def Let_def not_less [symmetric])

lemma no_sleep_ineligible:
  "\<not> lightSleepEnabled s \<or> \<not> connected s \<or> photoDataUploading s \<or> now - lastActivity s < 5000
     \<Longrightarrow> enableLightSleep now wake s = s"
  by (auto simp: enableLightSleep_def)

lemma sleep_eligible:
  assumes "lightSleepEnabled s" "connected s" "\<not> photoDataUploading s"
    "5000 \<le> now - lastActivity s" "10000 < timeUntilNextPhoto now s"
  shows "enableLightSleep now wake s =
            s\<lparr>lastActivity := wake,
              trace := trace s @ [LightSleep (min (timeUntilNextPhoto now s - 5000) 15000)]\<rparr>"
proof -
  have "\<not> now - lastActivity s < 5000" using assms(4) by (simp add: not_less)
  then show ?thesis
    using assms(1,2,3,5) by (simp add: enableLightSleep_def Let_def sleep_time_min)
qed


text \<open>
  C6. With \<open>headroom\<close> the time until the next scheduled capture as the routine computes
  it: no sleep is attempted when the headroom is at most 10000 ms; the routine returns
  without any effect when light sleep is disabled, the link is down, an upload is active or
  the last activity is less than 5000 ms ago; otherwise, when the headroom exceeds
  10000 ms, it sleeps for min(headroom - 5000, 15000) ms, which ends at least 5000 ms
  before the capture is due, and sets the activity timestamp to the time of the wake-up.
\<close>

theorem light_sleep_bound:
  "(timeUntilNextPhoto now s \<le> 10000 \<longrightarrow> enableLightSleep now wake s = s) \<and>
   (\<not> lightSleepEnabled s \<or> \<not> connected s \<or> photoDataUploading s \<or> now - lastActivity s < 5000
      \<longrightarrow> enableLightSleep now wake s = s) \<and>
   (lightSleepEnabled s \<and> connected s \<and> \<not> photoDataUploading s \<and> 5000 \<le> now - lastActivity s \<and>
    10000 < timeUntilNextPhoto now s
      \<longrightarrow> enableLightSleep now wake s =
            s\<lparr>lastActivity := wake,
              trace := trace s @ [LightSleep (min (timeUntilNextPhoto now s - 5000) 15000)]\<rparr> \<and>
          unat (min (timeUntilNextPhoto now s - 5000) 15000) + 5000 \<le> unat (timeUntilNextPhoto now s))"
  using no_sleep_small_headroom [of now s wake] no_sleep_ineligible [of s now wake]
    sleep_eligible [of s now wake] sleep_time_bound [of "timeUntilNextPhoto now s"]
  by blast

theorem light_sleep_bound_witness:
  "timeUntilNextPhoto 9000 (app_capturing 0) = 22000 \<and>
   enableLightSleep 9000 24000 (app_capturing 0) =
     (app_capturing 0)\<lparr>lastActivity := 24000, trace := [LightSleep 15000]\<rparr> \<and>
   timeUntilNextPhoto 18000 (app_capturing 0) = 13000 \<and>
   enableLightSleep 18000 26000 (app_capturing 0) =
     (app_capturing 0)\<lparr>lastActivity := 26000, trace := [LightSleep 8000]\<rparr> \<and>
   timeUntilNextPhoto 25000 (app_capturing 0) = 6000 \<and>
   enableLightSleep 25000 25000 (app_capturing 0) = app_capturing 0 \<and>
   enableLightSleep 9000 24000 ((app_capturing 0)\<lparr>connected := False\<rparr>) =
     (app_capturing 0)\<lparr>connected := False\<rparr>"
proof -
  let ?s = "app_capturing 0"
  have c: "lightSleepEnabled ?s \<and> connected ?s \<and> \<not> photoDataUploading ?s"
    and la: "lastActivity ?s = 1000" and tr: "trace ?s = []"
    by (simp_all add: app_capturing_def app_init_def)
  have t: "timeUntilNextPhoto 9000 ?s = 22000" "timeUntilNextPhoto 18000 ?s = 13000"
    "timeUntilNextPhoto 25000 ?s = 6000"
    by (simp_all add: timeUntilNextPhoto_def app_capturing_def app_init_def
        PHOTO_CAPTURE_INTERVAL_MS_def word_sless_alt)
  have h1: "(5000 :: millis) \<le> 9000 - lastActivity ?s \<and> 10000 < timeUntilNextPhoto 9000 ?s"
    and h2: "(5000 :: millis) \<le> 18000 - lastActivity ?s \<and> 10000 < timeUntilNextPhoto 18000 ?s"
    and h3: "timeUntilNextPhoto 25000 ?s \<le> 10000"
    by (simp_all add: la t)
  have m: "min (22000 - 5000) 15000 = (15000 :: millis)" "min (13000 - 5000) 15000 = (8000 :: millis)"
    by simp_all
  have a: "enableLightSleep 9000 24000 ?s = ?s\<lparr>lastActivity := 24000, trace := [LightSleep 15000]\<rparr>"
    using light_sleep_bound [of 9000 ?s 24000] c h1 by (simp add: t tr m)
  have b: "enableLightSleep 18000 26000 ?s = ?s\<lparr>lastActivity := 26000, trace := [LightSleep 8000]\<rparr>"
    using light_sleep_bound [of 18000 ?s 26000] c h2 by (simp add: t tr m)
  have d: "enableLightSleep 25000 25000 ?s = ?s"
    using light_sleep_bound [of 25000 ?s 25000] h3 by blast
  have e: "enableLightSleep 9000 24000 (?s\<lparr>connected := False\<rparr>) = ?s\<lparr>connected := False\<rparr>"
    using light_sleep_bound [of 9000 "?s\<lparr>connected := False\<rparr>" 24000] by simp
  show ?thesis by (intro conjI) (rule t a b d e)+
qed

section \<open>Photo control command\<close>

lemma sint_byte_small: "unat (v :: byte) \<le> 127 \<Longrightarrow> sint v = int (unat v)"
proof -
  assume a: "unat v \<le> 127"
  then have "v \<le> 127" by (simp add: word_le_nat_alt)
  then have le: "uint v \<le> 127" by (simp add: word_le_def)
  have ge: "0 \<le> uint v" by (rule uint_ge_0)
  have p: "(2 :: int) ^ 7 = 128" by simp
  have "- (2 ^ 7) \<le> uint v" unfolding p using ge by linarith
  moreover have "uint v < 2 ^ 7" unfolding p using le by linarith
  ultimately have "signed_take_bit 7 (uint v) = uint v"
    by (rule signed_take_bit_int_eq_self)
  moreover have "sint v = signed_take_bit (LENGTH(8) - Suc 0) (uint v)"
    by (rule sint_uint)
  ultimately show ?thesis by simp
qed
lemma capture_due_after:
  assumes "unat (now' - now) + 30000 < 2 ^ 32"
  shows "(30000 :: 32 word) \<le> now' - (now - 30000)"
proof -
  have e: "now' - (now - 30000) = (now' - now) + 30000" by simp
  have "unat ((now' - now) + 30000) = unat (now' - now) + unat (30000 :: 32 word)"
    using assms by (simp add: unat_add_lem [THEN iffD1])
  then show ?thesis unfolding e by (simp add: word_le_nat_alt)
qed

lemma handlePhotoControl_interval:
  assumes "5 \<le> unat v" "unat v \<le> 127"
  shows "handlePhotoControl now v s =
           s\<lparr>captureInterval := 30000, isCapturingPhotos := True, lastCaptureTime := now - 30000\<rparr>"
proof -
  have "sint v = int (unat v)" by (rule sint_byte_small [OF assms(2)])
  with assms have "5 \<le> sint v" "sint v \<le> 300" "sint v \<noteq> - 1" "sint v \<noteq> 0"
    by linarith+
  then show ?thesis
    by (simp add: handlePhotoControl_def PHOTO_CAPTURE_INTERVAL_MS_def)
qed

lemma sint_byte_large:
  assumes "128 \<le> unat (v :: byte)"
  shows "sint v = int (unat v) - 256"
proof -
  have "(128 :: byte) \<le> v" using assms by (simp add: word_le_nat_alt)
  then have ge: "128 \<le> uint v" by (simp add: word_le_def)
  have lt: "uint v < 256" using uint_lt2p [of v] by simp
  have p: "(2 :: int) ^ 7 = 128" by simp
  have "- (2 ^ 7) \<le> uint v - 256" unfolding p using ge by linarith
  moreover have "uint v - 256 < 2 ^ 7" unfolding p using lt by linarith
  ultimately have self: "signed_take_bit 7 (uint v - 256) = uint v - 256"
    by (rule signed_take_bit_int_eq_self)
  have w: "(word_of_int (uint v - 256) :: byte) = v" by simp
  have "sint v = sint (word_of_int (uint v - 256) :: byte)" unfolding w by (rule refl)
  also have "\<dots> = signed_take_bit 7 (uint v - 256)"
    by (simp only: sint_sbintrunc') simp
  also note self
  finally have "sint v = uint v - 256" .
  then show ?thesis unfolding uint_nat .
qed

text \<open>A command byte between 128 and 254 is a negative \<^verbatim>\<open>int8_t\<close> other than -1: the
  write records the activity and nothing else.\<close>

lemma photo_command_high_bytes_ignored:
  assumes "128 \<le> unat v" and "unat v \<le> 254"
  shows "photoControl_onWrite t now [v] s = s\<lparr>lastActivity := t\<rparr>"
proof -
  have "sint v = int (unat v) - 256" by (rule sint_byte_large [OF assms(1)])
  with assms have "sint v \<noteq> - 1" "sint v \<noteq> 0" "\<not> 5 \<le> sint v" by linarith+
  then show ?thesis by (simp add: photoControl_onWrite_def handlePhotoControl_def)
qed

text \<open>
  C9 (as amended). The command byte is read as a signed 8-bit integer. For every byte
  whose value is between 5 and 127, the capture interval is set to the configured
  30000 ms whatever the byte is, capturing is enabled and the last-capture timestamp is
  set to now minus the interval, so that a capture is due at every later loop timestamp
  (up to the wrap of the 32-bit clock) once the link is connected and no upload is active.
  The result does not depend on the byte.
\<close>

theorem photo_interval_command:
  assumes "5 \<le> unat v" and "unat v \<le> 127"
  shows "captureInterval (photoControl_onWrite t now [v] s) = 30000 \<and>
         isCapturingPhotos (photoControl_onWrite t now [v] s) \<and>
         lastCaptureTime (photoControl_onWrite t now [v] s) = now - 30000 \<and>
         photoControl_onWrite t now [v] s = photoControl_onWrite t now [5] s \<and>
         (connected s \<and> \<not> photoDataUploading s \<and> unat (now' - now) + 30000 < 2 ^ 32
            \<longrightarrow> capture_due now' (photoControl_onWrite t now [v] s))"
  using capture_due_after [of now' now]
  by (simp add: photoControl_onWrite_def handlePhotoControl_interval [OF assms]
      handlePhotoControl_interval [of 5] capture_due_def)

theorem photo_interval_command_witness:
  "5 \<le> unat (60 :: byte) \<and> unat (60 :: byte) \<le> 127 \<and>
   captureInterval (photoControl_onWrite 999 1000 [60] ((app_init 0)\<lparr>connected := True\<rparr>)) = 30000 \<and>
   isCapturingPhotos (photoControl_onWrite 999 1000 [60] ((app_init 0)\<lparr>connected := True\<rparr>)) \<and>
   lastCaptureTime (photoControl_onWrite 999 1000 [60] ((app_init 0)\<lparr>connected := True\<rparr>)) = 1000 - 30000 \<and>
   capture_due 1005 (photoControl_onWrite 999 1000 [60] ((app_init 0)\<lparr>connected := True\<rparr>))"
proof -
  let ?s = "(app_init 0)\<lparr>connected := True\<rparr>"
  have h: "5 \<le> unat (60 :: byte)" "unat (60 :: byte) \<le> 127" by simp_all
  have c: "connected ?s \<and> \<not> photoDataUploading ?s \<and> unat ((1005 :: millis) - 1000) + 30000 < 2 ^ 32"
    by (simp add: app_init_def)
  note t = photo_interval_command [OF h, of 999 1000 ?s 1005]
  from t c have "capture_due 1005 (photoControl_onWrite 999 1000 [60] ?s)" by blast
  with t h show ?thesis by blast
qed

text \<open>
  The claim as stated, for every command byte between 5 and 300, fails at the byte 200:
  read as \<^verbatim>\<open>int8_t\<close> it is -56, no branch of the handler applies, and neither the
  interval nor the capture flag nor the timestamp is set.
\<close>

theorem photo_interval_command_counterexample:
  "5 \<le> unat (200 :: byte) \<and> unat (200 :: byte) \<le> 300 \<and>
   captureInterval (photoControl_onWrite 999 1000 [200] (app_init 0)) \<noteq> 30000 \<and>
   \<not> isCapturingPhotos (photoControl_onWrite 999 1000 [200] (app_init 0)) \<and>
   lastCaptureTime (photoControl_onWrite 999 1000 [200] (app_init 0)) \<noteq> 1000 - 30000"
  by (simp add: photoControl_onWrite_def handlePhotoControl_def app_init_def)

section \<open>Packet ring buffer: admission\<close>

text \<open>
  C2 (the code departs from the claim). The admission test of the publish operation
  compares the wrapped next write position with the read position. When the write
  position is below the read position and the record is long enough to run past the end
  of the buffer, the wrapped position is below both, neither disjunct of the test holds,
  and the record is written although fewer than its \<open>len + 2\<close> bytes are free: the
  write position passes the read position and unread bytes are overwritten.
\<close>

theorem publish_admitted_across_read_position:
  assumes "audio_tx_write_pos s < audio_tx_read_pos s" and "audio_tx_read_pos s < n"
    and "length data \<le> maxb" and "length data + 2 < n"
    and "n \<le> audio_tx_write_pos s + length data + 2"
  shows "audio_tx_read_pos s - audio_tx_write_pos s < length data + 2 \<and>
         audio_tx_write_pos (onOpusEncoded maxb n data s) =
           audio_tx_write_pos s + length data + 2 - n \<and>
         audio_tx_write_pos (onOpusEncoded maxb n data s) < audio_tx_write_pos s \<and>
         audio_tx_read_pos (onOpusEncoded maxb n data s) = audio_tx_read_pos s \<and>
         onOpusEncoded maxb n data s \<noteq> s"
proof -
  let ?w = "audio_tx_write_pos s" and ?r = "audio_tx_read_pos s"
  let ?nw = "(?w + (length data + 2)) mod n"
  have lt: "?w + (length data + 2) < 2 * n" using assms by linarith
  have nw: "?nw = ?w + length data + 2 - n"
    using assms(5) lt by (simp add: mod_if)
  have small: "?nw < ?w" using nw assms by linarith
  have admitted: "\<not> ((?w < ?r \<and> ?r \<le> ?nw) \<or> (?r \<le> ?w \<and> ?nw < ?w \<and> ?r \<le> ?nw))"
    using small assms(1) by linarith
  have wp: "audio_tx_write_pos (onOpusEncoded maxb n data s) = ?nw"
    and rp: "audio_tx_read_pos (onOpusEncoded maxb n data s) = ?r"
    using admitted assms(3) by (simp_all add: onOpusEncoded_def Let_def)
  have "onOpusEncoded maxb n data s \<noteq> s"
    using wp small by (metis less_irrefl)
  then show ?thesis using wp rp nw small assms by simp
qed

text \<open>
  A session from the initial state with a buffer of 18 bytes (3 slots of 4 + 2 bytes): three
  packets are sent, the client unsubscribes, three more packets fill the buffer up to one
  byte before the read position, and a fourth one is admitted across it. After the client
  subscribes again the sender reads out the record \<open>[9, 4]\<close>, which no publish call
  passed: its first byte comes from the last packet and its second from the packet that was
  overwritten.
\<close>

theorem publish_admitted_across_read_position_witness:
  "(\<exists>s1. tx_run 4 18 [Publish [1, 1, 1, 1], Publish [2, 2, 2, 2], Publish [3], Drain,
                      Subscribe False, Publish [4, 4, 4, 4], Publish [5, 5, 5, 5], Publish [6, 6, 6]]
            (app_streaming 18) = Some s1 \<and>
         audio_tx_write_pos s1 = 14 \<and> audio_tx_read_pos s1 = 15 \<and>
         audio_tx_write_pos (onOpusEncoded 4 18 [0, 2, 0, 9] s1) = 2 \<and>
         audio_tx_read_pos (onOpusEncoded 4 18 [0, 2, 0, 9] s1) = 15) \<and>
   (\<exists>s'. tx_run 4 18 [Publish [1, 1, 1, 1], Publish [2, 2, 2, 2], Publish [3], Drain,
                      Subscribe False, Publish [4, 4, 4, 4], Publish [5, 5, 5, 5], Publish [6, 6, 6],
                      Publish [0, 2, 0, 9], Subscribe True, Drain]
            (app_streaming 18) = Some s' \<and>
         audio_payloads (trace s') =
           [[1, 1, 1, 1], [2, 2, 2, 2], [3], [9, 4], [5, 5, 5, 5], [6, 6, 6], [0, 2, 0, 9]]) \<and>
   [9, 4] \<notin> set (published [Publish [1, 1, 1, 1], Publish [2, 2, 2, 2], Publish [3], Drain,
                      Subscribe False, Publish [4, 4, 4, 4], Publish [5, 5, 5, 5], Publish [6, 6, 6],
                      Publish [0, 2, 0, 9], Subscribe True, Drain])"
proof -
  let ?es1 = "[Publish [1, 1, 1, 1], Publish [2, 2, 2, 2], Publish [3], Drain,
               Subscribe False, Publish [4, 4, 4, 4], Publish [5, 5, 5, 5], Publish [6, 6, 6]]"
  have "\<exists>s1. tx_run 4 18 ?es1 (app_streaming 18) = Some s1 \<and>
          audio_tx_write_pos s1 = 14 \<and> audio_tx_read_pos s1 = 15"
    by (simp add: app_streaming_def app_init_def onOpusEncoded_def loop_audio_tx_def
        processAudioTx_def audio_tx_drain.simps audio_tx_pop_def broadcastAudioPacket_def
        Let_def read_bytes_unfold)
  then obtain s1 where run1: "tx_run 4 18 ?es1 (app_streaming 18) = Some s1"
    and w: "audio_tx_write_pos s1 = 14" and r: "audio_tx_read_pos s1 = 15" by blast
  from publish_admitted_across_read_position [of s1 18 "[0, 2, 0, 9]" 4]
  have "audio_tx_write_pos (onOpusEncoded 4 18 [0, 2, 0, 9] s1) = 2 \<and>
        audio_tx_read_pos (onOpusEncoded 4 18 [0, 2, 0, 9] s1) = 15"
    by (simp add: w r)
  with run1 w r have first: "\<exists>s1. tx_run 4 18 ?es1 (app_streaming 18) = Some s1 \<and>
         audio_tx_write_pos s1 = 14 \<and> audio_tx_read_pos s1 = 15 \<and>
         audio_tx_write_pos (onOpusEncoded 4 18 [0, 2, 0, 9] s1) = 2 \<and>
         audio_tx_read_pos (onOpusEncoded 4 18 [0, 2, 0, 9] s1) = 15"
    by blast
  have second: "\<exists>s'. tx_run 4 18 (?es1 @ [Publish [0, 2, 0, 9], Subscribe True, Drain])
            (app_streaming 18) = Some s' \<and>
         audio_payloads (trace s') =
           [[1, 1, 1, 1], [2, 2, 2, 2], [3], [9, 4], [5, 5, 5, 5], [6, 6, 6], [0, 2, 0, 9]]"
    by (simp add: app_streaming_def app_init_def onOpusEncoded_def loop_audio_tx_def
        processAudioTx_def audio_tx_drain.simps audio_tx_pop_def broadcastAudioPacket_def
        Let_def read_bytes_unfold audio_payloads_def List.map_filter_def)
  have third: "[9, 4] \<notin> set (published (?es1 @ [Publish [0, 2, 0, 9], Subscribe True, Drain]))"
    by simp
  from first second third show ?thesis by simp
qed

section \<open>Photo transfer: chunks and terminator\<close>

lemma chunk_offset_lt:
  assumes "0 < l" "k < spec_chunk_count l"
  shows "chunk_offset k < l"
proof (cases "k = 0")
  case True
  then show ?thesis using assms by (simp add: chunk_offset_def)
next
  case False
  then have big: "199 < l" and k: "k - 1 < (l - 199 + 199) div 200"
    using assms by (auto simp: spec_chunk_count_def split: if_splits)
  have "200 * ((l - 199 + 199) div 200) \<le> l - 199 + 199" by simp
  with k have "200 * (k - 1) + 200 \<le> l" using big by simp
  then show ?thesis using False by (simp add: chunk_offset_def)
qed

lemma chunk_offset_count_ge: "l \<le> chunk_offset (spec_chunk_count l)"
proof (cases "l \<le> 199")
  case True
  then show ?thesis by (simp add: chunk_offset_def spec_chunk_count_def)
next
  case False
  let ?x = "l - 199 + 199"
  have "?x mod 200 < 200" by simp
  moreover have "200 * (?x div 200) + ?x mod 200 = ?x" by simp
  ultimately have "l - 199 \<le> 200 * (?x div 200)" by linarith
  then show ?thesis using False by (simp add: chunk_offset_def spec_chunk_count_def)
qed

lemma chunk_offset_Suc:
  "chunk_offset k + (if k = 0 then 199 else 200) = chunk_offset (Suc k)"
  by (cases k) (simp_all add: chunk_offset_def)

lemma spec_chunk_count_le: "0 < l \<Longrightarrow> spec_chunk_count l \<le> l"
proof -
  assume "0 < l"
  have "(l - 199 + 199) div 200 \<le> l - 199 + 199" by (rule div_le_dividend)
  then show ?thesis using \<open>0 < l\<close> by (auto simp: spec_chunk_count_def)
qed

lemma spec_chunk_count_pos: "0 < spec_chunk_count l"
  by (simp add: spec_chunk_count_def)

lemma spec_chunk_alt:
  "spec_chunk orient img k =
     (if k = 0 then [0, 0, orient] else [of_nat (k mod 256), of_nat ((k div 256) mod 256)])
     @ take (if k = 0 then 199 else 200) (drop (chunk_offset k) img)"
  by (simp add: spec_chunk_def spec_chunk_payload_def chunk_offset_def)

lemma size_t_sub_le: "b \<le> a \<Longrightarrow> a < 2 ^ 32 \<Longrightarrow> size_t_sub a b = a - b"
  by (simp add: size_t_sub_def mod_if)

lemma size_t_add_lt: "a + b < 2 ^ 32 \<Longrightarrow> size_t_add a b = a + b"
  by (simp add: size_t_add_def)

lemma photo_tx_section_data_chunk:
  assumes "photoDataUploading s" and "fb s = Some img" and "photo_chunks_this_loop s < 2"
    and "sent_photo_bytes s < length img" and "length img < 2 ^ 32"
    and "sent_photo_frames s + 1 < 2 ^ 32"
  shows "photo_tx_section pending now s =
           s\<lparr>photo_chunks_this_loop :=
                (if audioSubscribed s \<and> pending then 0 else photo_chunks_this_loop s + 1),
             trace := trace s @
                [PhotoNotify
                   ((if sent_photo_frames s = 0
                     then [0, 0, current_photo_orientation s]
                     else [of_nat (sent_photo_frames s mod 256),
                           of_nat ((sent_photo_frames s div 256) mod 256)])
                    @ take (if sent_photo_frames s = 0 then 199 else 200)
                        (drop (sent_photo_bytes s) img))],
             sent_photo_bytes :=
                min (length img)
                  (sent_photo_bytes s + (if sent_photo_frames s = 0 then 199 else 200)),
             sent_photo_frames := sent_photo_frames s + 1,
             lastActivity := now\<rparr>"
proof -
  have rem: "size_t_sub (length img) (sent_photo_bytes s) = length img - sent_photo_bytes s"
    using assms(4,5) by (simp add: size_t_sub_le)
  show ?thesis
  proof (cases "sent_photo_frames s = 0")
    case True
    then show ?thesis
      using assms
      by (simp add: photo_tx_section_def Let_def rem size_t_add_lt)
  next
    case False
    then show ?thesis
      using assms
      by (simp add: photo_tx_section_def Let_def rem size_t_add_lt)
  qed
qed

lemma photo_tx_section_terminator:
  assumes "photoDataUploading s" and "fb s = Some img" and "photo_chunks_this_loop s < 2"
    and "sent_photo_bytes s = length img" and "length img < 2 ^ 32"
  shows "photo_tx_section pending now s =
           s\<lparr>photo_chunks_this_loop := 0,
             trace := trace s @ [PhotoNotify [0xFF, 0xFF]],
             photoDataUploading := False,
             fb := None\<rparr>"
proof -
  have rem: "size_t_sub (length img) (sent_photo_bytes s) = 0"
    using assms(4,5) by (simp add: size_t_sub_le)
  show ?thesis using assms(1,2,3) by (simp add: photo_tx_section_def Let_def rem)
qed

lemma photo_tx_section_skip:
  assumes "\<not> (photoDataUploading s \<and> fb s \<noteq> None \<and> photo_chunks_this_loop s < 2)"
  shows "photo_tx_section pending now s = s\<lparr>photo_chunks_this_loop := 0\<rparr>"
  using assms by (auto simp: photo_tx_section_def)

text \<open>One iteration during an upload: nothing is sent, or the next chunk, or the terminator.\<close>

lemma upload_step:
  fixes pending now
  assumes inv: "upload_inv img k s" and len: "0 < length img" "length img < 2 ^ 32"
    and orient: "current_photo_orientation s = orient"
  defines "s' \<equiv> photo_tx_section pending now s"
  shows "(2 \<le> photo_chunks_this_loop s \<and> upload_inv img k s' \<and> trace s' = trace s \<and>
          photo_chunks_this_loop s' = 0 \<and> current_photo_orientation s' = orient) \<or>
         (photo_chunks_this_loop s < 2 \<and> k < spec_chunk_count (length img) \<and>
          upload_inv img (Suc k) s' \<and>
          trace s' = trace s @ [PhotoNotify (spec_chunk orient img k)] \<and>
          current_photo_orientation s' = orient) \<or>
         (photo_chunks_this_loop s < 2 \<and> k = spec_chunk_count (length img) \<and>
          \<not> photoDataUploading s' \<and> fb s' = None \<and>
          trace s' = trace s @ [PhotoNotify [0xFF, 0xFF]])"
proof (cases "photo_chunks_this_loop s < 2")
  case False
  then have "s' = s\<lparr>photo_chunks_this_loop := 0\<rparr>"
    unfolding s'_def by (simp add: photo_tx_section_skip)
  then show ?thesis using False inv orient by (simp add: upload_inv_def)
next
  case True
  from inv have up: "photoDataUploading s" and fbs: "fb s = Some img"
    and fr: "sent_photo_frames s = k" and kn: "k \<le> spec_chunk_count (length img)"
    and sb: "sent_photo_bytes s = min (length img) (chunk_offset k)"
    by (simp_all add: upload_inv_def)
  show ?thesis
  proof (cases "k < spec_chunk_count (length img)")
    case less: True
    have off: "chunk_offset k < length img" by (rule chunk_offset_lt [OF len(1) less])
    then have sb': "sent_photo_bytes s = chunk_offset k" using sb by simp
    have "k < length img" using less spec_chunk_count_le [OF len(1)] by simp
    then have frb: "sent_photo_frames s + 1 < 2 ^ 32" using fr len(2) by simp
    have step: "s' = s\<lparr>photo_chunks_this_loop :=
                (if audioSubscribed s \<and> pending then 0 else photo_chunks_this_loop s + 1),
             trace := trace s @ [PhotoNotify (spec_chunk orient img k)],
             sent_photo_bytes := min (length img) (chunk_offset (Suc k)),
             sent_photo_frames := Suc k,
             lastActivity := now\<rparr>"
      unfolding s'_def
      using photo_tx_section_data_chunk [OF up fbs True _ len(2) frb, of pending now] off
      by (simp add: sb' fr orient spec_chunk_alt chunk_offset_Suc [symmetric])
    show ?thesis
      using True less up fbs orient
      by (simp add: step upload_inv_def)
  next
    case False
    then have k: "k = spec_chunk_count (length img)" using kn by simp
    have "sent_photo_bytes s = length img"
      using sb chunk_offset_count_ge [of "length img"] by (simp add: k)
    from photo_tx_section_terminator [OF up fbs True this len(2), of pending now]
    show ?thesis using True k by (simp add: s'_def)
  qed
qed


lemma upload_run_idle:
  "\<not> photoDataUploading s \<Longrightarrow>
   \<not> photoDataUploading (photo_upload_run ins s) \<and>
   trace (photo_upload_run ins s) = trace s \<and> fb (photo_upload_run ins s) = fb s"
proof (induction ins arbitrary: s)
  case Nil
  then show ?case by simp
next
  case (Cons a ins)
  obtain now pending where a: "a = (now, pending)" by (cases a)
  have "photo_tx_section pending now s = s\<lparr>photo_chunks_this_loop := 0\<rparr>"
    using Cons.prems by (simp add: photo_tx_section_skip)
  then show ?case using Cons.IH [of "s\<lparr>photo_chunks_this_loop := 0\<rparr>"] Cons.prems
    by (simp add: a)
qed

lemma chunk_notes_empty: "chunk_notes orient img k k = []"
  by (simp add: chunk_notes_def)

lemma chunk_notes_Cons:
  "Suc k \<le> k' \<Longrightarrow>
   chunk_notes orient img k k' =
     PhotoNotify (spec_chunk orient img k) # chunk_notes orient img (Suc k) k'"
  by (simp add: chunk_notes_def upt_conv_Cons)

lemma upload_run_trace:
  assumes "upload_inv img k s" and "0 < length img" and "length img < 2 ^ 32"
    and "current_photo_orientation s = orient"
  shows "(photoDataUploading (photo_upload_run ins s) \<and>
          (\<exists>k'. k \<le> k' \<and> k' \<le> spec_chunk_count (length img) \<and>
                trace (photo_upload_run ins s) = trace s @ chunk_notes orient img k k')) \<or>
         (\<not> photoDataUploading (photo_upload_run ins s) \<and>
          fb (photo_upload_run ins s) = None \<and>
          trace (photo_upload_run ins s) =
            trace s @ chunk_notes orient img k (spec_chunk_count (length img))
              @ [PhotoNotify [0xFF, 0xFF]])"
  using assms
proof (induction ins arbitrary: s k)
  case Nil
  then have "k \<le> spec_chunk_count (length img)" "photoDataUploading s"
    by (simp_all add: upload_inv_def)
  then show ?case by (intro disjI1) (auto simp: chunk_notes_empty)
next
  case (Cons a ins)
  obtain now pending where a: "a = (now, pending)" by (cases a)
  let ?s1 = "photo_tx_section pending now s"
  let ?n = "spec_chunk_count (length img)"
  have run: "photo_upload_run (a # ins) s = photo_upload_run ins ?s1" by (simp add: a)
  from upload_step [OF Cons.prems, of pending now]
  consider
    (skip) "upload_inv img k ?s1" "trace ?s1 = trace s" "current_photo_orientation ?s1 = orient"
  | (chunk) "k < ?n" "upload_inv img (Suc k) ?s1"
      "trace ?s1 = trace s @ [PhotoNotify (spec_chunk orient img k)]"
      "current_photo_orientation ?s1 = orient"
  | (final) "k = ?n" "\<not> photoDataUploading ?s1" "fb ?s1 = None"
      "trace ?s1 = trace s @ [PhotoNotify [0xFF, 0xFF]]"
    by (elim disjE) auto
  then show ?case
  proof cases
    case skip
    from Cons.IH [OF skip(1) Cons.prems(2,3) skip(3)] show ?thesis
      unfolding run skip(2) .
  next
    case chunk
    note split = chunk_notes_Cons [of k _ orient img]
    from Cons.IH [OF chunk(2) Cons.prems(2,3) chunk(4)]
    show ?thesis
    proof
      assume "photoDataUploading (photo_upload_run ins ?s1) \<and>
          (\<exists>k'. Suc k \<le> k' \<and> k' \<le> ?n \<and>
                trace (photo_upload_run ins ?s1) = trace ?s1 @ chunk_notes orient img (Suc k) k')"
      then obtain k' where up: "photoDataUploading (photo_upload_run ins ?s1)"
        and k': "Suc k \<le> k'" "k' \<le> ?n"
        and tr: "trace (photo_upload_run ins ?s1) = trace ?s1 @ chunk_notes orient img (Suc k) k'"
        by blast
      have "trace (photo_upload_run ins ?s1) = trace s @ chunk_notes orient img k k'"
        unfolding tr chunk(3) split [OF k'(1)] by simp
      moreover have "k \<le> k'" using k'(1) by simp
      ultimately have "\<exists>k'. k \<le> k' \<and> k' \<le> ?n \<and>
          trace (photo_upload_run ins ?s1) = trace s @ chunk_notes orient img k k'"
        using k'(2) by blast
      with up show ?thesis unfolding run by (intro disjI1 conjI)
    next
      assume d: "\<not> photoDataUploading (photo_upload_run ins ?s1) \<and>
          fb (photo_upload_run ins ?s1) = None \<and>
          trace (photo_upload_run ins ?s1) =
            trace ?s1 @ chunk_notes orient img (Suc k) ?n @ [PhotoNotify [0xFF, 0xFF]]"
      have "Suc k \<le> ?n" using chunk(1) by simp
      from split [OF this] d chunk(3)
      have "trace (photo_upload_run ins ?s1) =
              trace s @ chunk_notes orient img k ?n @ [PhotoNotify [0xFF, 0xFF]]"
        by simp
      with d show ?thesis unfolding run by (intro disjI2) simp
    qed
  next
    case final
    from upload_run_idle [OF final(2), of ins] final
    show ?thesis unfolding run by (intro disjI2) (simp add: chunk_notes_empty)
  qed
qed

lemma upload_run_completes:
  assumes "upload_inv img k s" and "0 < length img" and "length img < 2 ^ 32"
    and "2 * (spec_chunk_count (length img) + 1 - k)
           - (if photo_chunks_this_loop s < 2 then 1 else 0) \<le> length ins"
  shows "\<not> photoDataUploading (photo_upload_run ins s)"
  using assms
proof (induction ins arbitrary: s k)
  case Nil
  then have "k \<le> spec_chunk_count (length img)" by (simp add: upload_inv_def)
  with Nil.prems(4) show ?case by (simp split: if_splits)
next
  case (Cons a ins)
  obtain now pending where a: "a = (now, pending)" by (cases a)
  let ?s1 = "photo_tx_section pending now s"
  let ?n = "spec_chunk_count (length img)"
  have run: "photo_upload_run (a # ins) s = photo_upload_run ins ?s1" by (simp add: a)
  have kn: "k \<le> ?n" using Cons.prems(1) by (simp add: upload_inv_def)
  from upload_step [OF Cons.prems(1,2,3) refl, of pending now]
  consider
    (skip) "2 \<le> photo_chunks_this_loop s" "upload_inv img k ?s1" "photo_chunks_this_loop ?s1 = 0"
  | (chunk) "photo_chunks_this_loop s < 2" "k < ?n" "upload_inv img (Suc k) ?s1"
  | (final) "\<not> photoDataUploading ?s1"
    by (elim disjE) auto
  then show ?case
  proof cases
    case skip
    have "2 * (?n + 1 - k) - (if photo_chunks_this_loop ?s1 < 2 then 1 else 0) \<le> length ins"
      using Cons.prems(4) skip(1,3) kn by simp
    from Cons.IH [OF skip(2) Cons.prems(2,3) this] show ?thesis unfolding run .
  next
    case chunk
    have "2 * (?n + 1 - Suc k) - (if photo_chunks_this_loop ?s1 < 2 then 1 else 0) \<le> length ins"
      using Cons.prems(4) chunk(1,2) by (simp split: if_splits)
    from Cons.IH [OF chunk(3) Cons.prems(2,3) this] show ?thesis unfolding run .
  next
    case final
    from upload_run_idle [OF final, of ins] show ?thesis unfolding run by simp
  qed
qed

lemma payload_concat_take:
  "m \<le> spec_chunk_count (length img) \<Longrightarrow>
   concat (map (spec_chunk_payload img) [0..<m]) = take (chunk_offset m) img"
proof (induction m)
  case 0
  then show ?case by (simp add: chunk_offset_def)
next
  case (Suc m)
  have pl: "spec_chunk_payload img m = take (if m = 0 then 199 else 200) (drop (chunk_offset m) img)"
    by (simp add: spec_chunk_payload_def chunk_offset_def)
  have "concat (map (spec_chunk_payload img) [0..<Suc m])
          = take (chunk_offset m) img @ spec_chunk_payload img m"
    using Suc by simp
  also have "\<dots> = take (chunk_offset m + (if m = 0 then 199 else 200)) img"
    unfolding pl by (simp only: take_add)
  finally show ?case by (simp only: chunk_offset_Suc)
qed

lemma payload_concat:
  "concat (map (spec_chunk_payload img) [0..<spec_chunk_count (length img)]) = img"
  using payload_concat_take [of "spec_chunk_count (length img)" img]
    chunk_offset_count_ge [of "length img"] by simp

lemma payload_sizes_sum:
  "sum_list (map (\<lambda>k. length (spec_chunk_payload img k)) [0..<spec_chunk_count (length img)])
     = length img"
proof -
  have "length (concat (map (spec_chunk_payload img) [0..<spec_chunk_count (length img)]))
          = length img"
    by (simp only: payload_concat)
  then show ?thesis by (simp add: length_concat comp_def)
qed

lemma payload_nonempty:
  assumes "0 < length img" "k < spec_chunk_count (length img)"
  shows "0 < length (spec_chunk_payload img k)"
  using chunk_offset_lt [OF assms]
  by (simp add: spec_chunk_payload_def chunk_offset_def split: if_splits)

lemma payload_cap: "length (spec_chunk_payload img k) \<le> (if k = 0 then 199 else 200)"
  by (simp add: spec_chunk_payload_def)


text \<open>
  C4. An upload that starts with the image \<open>img\<close> of length between 1 and \<open>2 ^ 32 - 1\<close>
  and runs over any sequence of loop iterations: when the uploading flag is clear at the
  end, the photo notifications sent are exactly chunk 0 with the header
  \<open>[0, 0, orientation]\<close> and the first 199 bytes at most, the chunks \<open>k > 0\<close> with the
  header \<open>[k mod 256, (k div 256) mod 256]\<close> and the next 200 bytes at most, and one
  terminator \<open>[0xFF, 0xFF]\<close> after them, and the image buffer is released. The flag is
  clear after \<open>2 * count + 2\<close> iterations at the latest. The payloads in order make up
  the image, so their sizes sum to its length, and every data chunk carries at least one
  payload byte.
\<close>

theorem photo_upload_chunks:
  assumes "photoDataUploading s" and "fb s = Some img"
    and "sent_photo_bytes s = 0" and "sent_photo_frames s = 0"
    and "0 < length img" and "length img < 2 ^ 32"
  shows "(\<not> photoDataUploading (photo_upload_run ins s) \<longrightarrow>
            trace (photo_upload_run ins s) = trace s @ spec_upload (current_photo_orientation s) img \<and>
            fb (photo_upload_run ins s) = None) \<and>
         (2 * spec_chunk_count (length img) + 2 \<le> length ins \<longrightarrow>
            \<not> photoDataUploading (photo_upload_run ins s)) \<and>
         concat (map (spec_chunk_payload img) [0..<spec_chunk_count (length img)]) = img \<and>
         sum_list (map (\<lambda>k. length (spec_chunk_payload img k)) [0..<spec_chunk_count (length img)])
           = length img \<and>
         (\<forall>k < spec_chunk_count (length img).
            0 < length (spec_chunk_payload img k) \<and>
            length (spec_chunk_payload img k) \<le> (if k = 0 then 199 else 200))"
proof -
  let ?n = "spec_chunk_count (length img)"
  let ?o = "current_photo_orientation s"
  have inv: "upload_inv img 0 s"
    using assms(1-4) by (simp add: upload_inv_def chunk_offset_def)
  have a: "\<not> photoDataUploading (photo_upload_run ins s) \<longrightarrow>
            trace (photo_upload_run ins s) = trace s @ spec_upload ?o img \<and>
            fb (photo_upload_run ins s) = None"
    using upload_run_trace [OF inv assms(5,6) refl, of ins]
    by (auto simp: spec_upload_def chunk_notes_def)
  have b: "2 * ?n + 2 \<le> length ins \<longrightarrow> \<not> photoDataUploading (photo_upload_run ins s)"
  proof
    assume "2 * ?n + 2 \<le> length ins"
    then have "2 * (?n + 1 - 0) - (if photo_chunks_this_loop s < 2 then 1 else 0) \<le> length ins"
      by simp
    from upload_run_completes [OF inv assms(5,6) this]
    show "\<not> photoDataUploading (photo_upload_run ins s)" .
  qed
  have c: "\<forall>k < ?n. 0 < length (spec_chunk_payload img k) \<and>
            length (spec_chunk_payload img k) \<le> (if k = 0 then 199 else 200)"
    using payload_nonempty [OF assms(5)] payload_cap by blast
  from a b c payload_concat [of img] payload_sizes_sum [of img] show ?thesis by blast
qed

theorem photo_upload_chunks_witness:
  "spec_chunk_count 450 = 3 \<and>
   \<not> photoDataUploading
       (photo_upload_run (replicate 8 (0, False))
          (start_upload 0 (replicate 450 7) 2 ((app_init 0)\<lparr>connected := True\<rparr>))) \<and>
   fb (photo_upload_run (replicate 8 (0, False))
          (start_upload 0 (replicate 450 7) 2 ((app_init 0)\<lparr>connected := True\<rparr>))) = None \<and>
   trace (photo_upload_run (replicate 8 (0, False))
          (start_upload 0 (replicate 450 7) 2 ((app_init 0)\<lparr>connected := True\<rparr>))) =
     [PhotoNotify ([0, 0, 2] @ replicate 199 7),
      PhotoNotify ([1, 0] @ replicate 200 7),
      PhotoNotify ([2, 0] @ replicate 51 7),
      PhotoNotify [0xFF, 0xFF]]"
proof -
  let ?img = "replicate 450 7 :: byte list"
  let ?s = "start_upload 0 ?img 2 ((app_init 0)\<lparr>connected := True\<rparr>)"
  let ?ins = "replicate 8 (0 :: millis, False)"
  have n: "spec_chunk_count 450 = 3" by (simp add: spec_chunk_count_def)
  have h: "photoDataUploading ?s" "fb ?s = Some ?img" "sent_photo_bytes ?s = 0"
    "sent_photo_frames ?s = 0" "0 < length ?img" "length ?img < 2 ^ 32"
    by (simp_all add: start_upload_def app_init_def)
  have s: "trace ?s = []" "current_photo_orientation ?s = 2"
    by (simp_all add: start_upload_def app_init_def)
  have l: "2 * spec_chunk_count (length ?img) + 2 \<le> length ?ins" by (simp add: n)
  have u: "[0..<3] = [0, 1, 2]" by (simp add: upt_rec)
  have w: "spec_upload 2 ?img =
     [PhotoNotify ([0, 0, 2] @ replicate 199 7),
      PhotoNotify ([1, 0] @ replicate 200 7),
      PhotoNotify ([2, 0] @ replicate 51 7),
      PhotoNotify [0xFF, 0xFF]]"
    by (simp add: spec_upload_def n u spec_chunk_def spec_chunk_payload_def)
  note t = photo_upload_chunks [OF h, of ?ins]
  from t l have d: "\<not> photoDataUploading (photo_upload_run ?ins ?s)" by blast
  with t have "trace (photo_upload_run ?ins ?s) = trace ?s @ spec_upload (current_photo_orientation ?s) ?img"
    and f: "fb (photo_upload_run ?ins ?s) = None" by blast+
  then have "trace (photo_upload_run ?ins ?s) = spec_upload 2 ?img" by (simp only: s append_Nil)
  with w n d f show ?thesis by simp
qed

section \<open>Photo transfer and pending audio\<close>

text \<open>
  C1 (the code departs from the claim). When the photo section of the loop finds an
  upload in progress, the per-iteration counter below 2, the client subscribed to audio
  and the packet buffer not empty, it resets the counter to 0, and then sends the next
  photo chunk all the same: the send follows the audio test in both of its branches. The
  packet buffer is as full after the section as before.
\<close>

theorem photo_chunk_sent_while_audio_pending:
  assumes "photoDataUploading s" and "fb s = Some img" and "photo_chunks_this_loop s < 2"
    and "audioSubscribed s" and "audio_tx_read_pos s \<noteq> audio_tx_write_pos s"
    and "sent_photo_bytes s < length img" and "length img < 2 ^ 32"
    and "sent_photo_frames s + 1 < 2 ^ 32"
  shows "photo_chunks_this_loop (loop_photo_tx now s) = 0 \<and>
         audio_tx_read_pos (loop_photo_tx now s) = audio_tx_read_pos s \<and>
         audio_tx_write_pos (loop_photo_tx now s) = audio_tx_write_pos s \<and>
         sent_photo_bytes s < sent_photo_bytes (loop_photo_tx now s) \<and>
         (\<exists>chunk. trace (loop_photo_tx now s) = trace s @ [PhotoNotify chunk] \<and>
                  2 < length chunk)"
  using assms(4,5,6)
  by (simp add: loop_photo_tx_def photo_tx_section_data_chunk [OF assms(1,2,3,6,7,8)])

text \<open>
  A client is connected, the encoder has published one packet that is not sent because
  the client has not subscribed yet, and an upload of a ten-byte image has started. The
  sender is a no-op; the client subscribes; the photo section of the same iteration then
  sends the first chunk with the packet still in the buffer.
\<close>

theorem photo_chunk_sent_while_audio_pending_witness:
  "loop_audio_tx 4 18
     (onOpusEncoded 4 18 [7, 8, 9]
        (start_upload 100 [1, 2, 3, 4, 5, 6, 7, 8, 9, 10] 2
           ((app_init 18)\<lparr>connected := True, audioCharPresent := True\<rparr>))) =
   Some (onOpusEncoded 4 18 [7, 8, 9]
        (start_upload 100 [1, 2, 3, 4, 5, 6, 7, 8, 9, 10] 2
           ((app_init 18)\<lparr>connected := True, audioCharPresent := True\<rparr>))) \<and>
   trace (loop_photo_tx 105
     ((onOpusEncoded 4 18 [7, 8, 9]
        (start_upload 100 [1, 2, 3, 4, 5, 6, 7, 8, 9, 10] 2
           ((app_init 18)\<lparr>connected := True, audioCharPresent := True\<rparr>)))
      \<lparr>audioSubscribed := True\<rparr>)) =
     [PhotoNotify [0, 0, 2, 1, 2, 3, 4, 5, 6, 7, 8, 9, 10]] \<and>
   photo_chunks_this_loop (loop_photo_tx 105
     ((onOpusEncoded 4 18 [7, 8, 9]
        (start_upload 100 [1, 2, 3, 4, 5, 6, 7, 8, 9, 10] 2
           ((app_init 18)\<lparr>connected := True, audioCharPresent := True\<rparr>)))
      \<lparr>audioSubscribed := True\<rparr>)) = 0 \<and>
   audio_tx_read_pos (loop_photo_tx 105
     ((onOpusEncoded 4 18 [7, 8, 9]
        (start_upload 100 [1, 2, 3, 4, 5, 6, 7, 8, 9, 10] 2
           ((app_init 18)\<lparr>connected := True, audioCharPresent := True\<rparr>)))
      \<lparr>audioSubscribed := True\<rparr>)) = 0 \<and>
   audio_tx_write_pos (loop_photo_tx 105
     ((onOpusEncoded 4 18 [7, 8, 9]
        (start_upload 100 [1, 2, 3, 4, 5, 6, 7, 8, 9, 10] 2
           ((app_init 18)\<lparr>connected := True, audioCharPresent := True\<rparr>)))
      \<lparr>audioSubscribed := True\<rparr>)) = 5"
proof -
  let ?img = "[1, 2, 3, 4, 5, 6, 7, 8, 9, 10] :: byte list"
  let ?pre = "onOpusEncoded 4 18 [7, 8, 9]
        (start_upload 100 ?img 2 ((app_init 18)\<lparr>connected := True, audioCharPresent := True\<rparr>))"
  let ?s = "?pre\<lparr>audioSubscribed := True\<rparr>"
  have f: "photoDataUploading ?s" "fb ?s = Some ?img" "photo_chunks_this_loop ?s < 2"
    "audioSubscribed ?s" "audio_tx_read_pos ?s \<noteq> audio_tx_write_pos ?s"
    "sent_photo_bytes ?s < length ?img" "length ?img < 2 ^ 32" "sent_photo_frames ?s + 1 < 2 ^ 32"
    by (simp_all add: onOpusEncoded_def start_upload_def app_init_def Let_def)
  have v: "audio_tx_read_pos ?s = 0" "audio_tx_write_pos ?s = 5" "trace ?s = []"
    by (simp_all add: onOpusEncoded_def start_upload_def app_init_def Let_def)
  have tx: "loop_audio_tx 4 18 ?pre = Some ?pre"
    by (simp add: loop_audio_tx_def onOpusEncoded_def start_upload_def app_init_def Let_def)
  have tr: "trace (loop_photo_tx 105 ?s) = [PhotoNotify [0, 0, 2, 1, 2, 3, 4, 5, 6, 7, 8, 9, 10]]"
    by (simp add: loop_photo_tx_def photo_tx_section_def size_t_sub_def size_t_add_def
        onOpusEncoded_def start_upload_def app_init_def Let_def)
  from photo_chunk_sent_while_audio_pending [OF f, of 105] v tx tr
  show ?thesis by simp
qed

section \<open>Sample ring buffer: overwrite of the oldest sample\<close>

lemma mod_wrap:
  fixes a c :: nat
  assumes "a < 2 * c"
  shows "a mod c = (if a < c then a else a - c)"
  using assms by (simp add: mod_if)

lemma ring_index_inj:
  fixes r c i j :: nat
  assumes "r < c" "i < c" "j < c" "(r + i) mod c = (r + j) mod c"
  shows "i = j"
proof -
  have "(r + i) mod c = (if r + i < c then r + i else r + i - c)"
    using assms(1,2) by (intro mod_wrap) simp
  moreover have "(r + j) mod c = (if r + j < c then r + j else r + j - c)"
    using assms(1,3) by (intro mod_wrap) simp
  ultimately show ?thesis using assms by (simp split: if_splits)
qed

lemma available_char:
  assumes "ring_read_pos r < cap" "ring_write_pos r < cap"
  shows "ring_buffer_available cap r < cap \<and>
         (ring_read_pos r + ring_buffer_available cap r) mod cap = ring_write_pos r"
  using assms by (auto simp: ring_buffer_available_def)

lemma available_unique:
  assumes "ring_read_pos r < cap" "ring_write_pos r < cap" "a < cap"
    and "(ring_read_pos r + a) mod cap = ring_write_pos r"
  shows "ring_buffer_available cap r = a"
  using available_char [OF assms(1,2)] assms(3,4) ring_index_inj [OF assms(1)]
  by metis

lemma pcm_pop_fst:
  assumes "pcm_ring_buffer r = Some buf" "ring_read_pos r < cap"
  shows "fst (pcm_pop cap k r) = map (\<lambda>i. buf ! ((ring_read_pos r + i) mod cap)) [0..<k]"
  using assms
proof (induction k arbitrary: r)
  case 0
  then show ?case by simp
next
  case (Suc k)
  let ?r1 = "r\<lparr>ring_read_pos := (ring_read_pos r + 1) mod cap\<rparr>"
  have c: "0 < cap" using Suc.prems(2) by simp
  have unf: "fst (pcm_pop cap (Suc k) r) = buf ! ring_read_pos r # fst (pcm_pop cap k ?r1)"
    using Suc.prems(1) by (simp add: split_beta)
  have IH: "fst (pcm_pop cap k ?r1) =
              map (\<lambda>i. buf ! (((ring_read_pos r + 1) mod cap + i) mod cap)) [0..<k]"
    using Suc.IH [of ?r1] Suc.prems(1) c by simp
  have shift: "((ring_read_pos r + 1) mod cap + i) mod cap = (ring_read_pos r + Suc i) mod cap" for i
    by (simp add: mod_add_left_eq)
  have "[0..<Suc k] = 0 # map Suc [0..<k]"
    by (simp add: upt_conv_Cons map_Suc_upt del: upt_Suc)
  then have "map (\<lambda>i. buf ! ((ring_read_pos r + i) mod cap)) [0..<Suc k] =
         buf ! ring_read_pos r # map (\<lambda>i. buf ! ((ring_read_pos r + Suc i) mod cap)) [0..<k]"
    using Suc.prems(2) by (simp add: comp_def del: upt_Suc)
  then show ?case
    unfolding unf IH shift by simp
qed

lemma pcm_readable_map:
  assumes "pcm_ring_buffer r = Some buf" "ring_read_pos r < cap"
  shows "pcm_readable cap r =
           map (\<lambda>i. buf ! ((ring_read_pos r + i) mod cap)) [0..<ring_buffer_available cap r]"
  unfolding pcm_readable_def by (rule pcm_pop_fst [OF assms])

lemma last_n_append:
  "last_n m (last_n m ys @ xs) = last_n m (ys @ xs)"
proof (cases "length ys \<le> m")
  case True
  then show ?thesis by (simp add: last_n_def)
next
  case False
  then have "last_n m ys @ xs = drop (length ys - m) (ys @ xs)"
    by (simp add: last_n_def)
  moreover have "length (drop (length ys - m) (ys @ xs)) - m = length xs"
    using False by simp
  ultimately show ?thesis using False by (simp add: last_n_def add.commute)
qed


lemma pcm_push_ok: "pcm_ring_ok cap r \<Longrightarrow> pcm_ring_ok cap (pcm_push cap x r)"
  by (auto simp: pcm_ring_ok_def pcm_push_def Let_def split: option.splits)

lemma pcm_push_readable:
  assumes ok: "pcm_ring_ok cap r"
  shows "pcm_readable cap (pcm_push cap x r) = last_n (cap - 1) (pcm_readable cap r @ [x])"
proof -
  let ?rd = "ring_read_pos r" and ?wr = "ring_write_pos r"
  let ?a = "ring_buffer_available cap r"
  from ok obtain buf where buf: "pcm_ring_buffer r = Some buf" and len: "length buf = cap"
    and rd: "?rd < cap" and wr: "?wr < cap" and cap: "0 < cap"
    by (auto simp: pcm_ring_ok_def split: option.splits)
  from available_char [OF rd wr] have a: "?a < cap" and wa: "(?rd + ?a) mod cap = ?wr" by simp_all
  have old: "pcm_readable cap r = map (\<lambda>i. buf ! ((?rd + i) mod cap)) [0..<?a]"
    by (rule pcm_readable_map [OF buf rd])
  have nw: "(?wr + 1) mod cap = (?rd + (?a + 1)) mod cap"
    using wa by (metis add.assoc mod_add_left_eq)
  have other: "(?rd + i) mod cap \<noteq> ?wr" if "i < cap" "i \<noteq> ?a" for i
    using ring_index_inj [OF rd that(1) a] that(2) wa by metis
  let ?buf' = "buf[?wr := x]"
  have upd_other: "?buf' ! ((?rd + i) mod cap) = buf ! ((?rd + i) mod cap)" if "i < cap" "i \<noteq> ?a" for i
    using other [OF that] by simp
  have upd_same: "?buf' ! ((?rd + ?a) mod cap) = x"
    using wa wr len by simp
  show ?thesis
  proof (cases "?a + 1 < cap")
    case True
    have ne: "(?wr + 1) mod cap \<noteq> ?rd"
    proof
      assume "(?wr + 1) mod cap = ?rd"
      then have "(?rd + (?a + 1)) mod cap = (?rd + 0) mod cap" using nw rd by simp
      from ring_index_inj [OF rd True cap this] show False by simp
    qed
    let ?r' = "r\<lparr>pcm_ring_buffer := Some ?buf', ring_write_pos := (?wr + 1) mod cap\<rparr>"
    have push: "pcm_push cap x r = ?r'"
      using ne buf by (simp add: pcm_push_def Let_def)
    have av: "ring_buffer_available cap ?r' = ?a + 1"
      by (rule available_unique) (use rd cap True nw in simp_all)
    have "pcm_readable cap ?r' =
            map (\<lambda>i. ?buf' ! ((ring_read_pos ?r' + i) mod cap)) [0..<ring_buffer_available cap ?r']"
      by (rule pcm_readable_map) (use rd in simp_all)
    then have "pcm_readable cap ?r' = map (\<lambda>i. ?buf' ! ((?rd + i) mod cap)) [0..<?a + 1]"
      unfolding av by simp
    also have "\<dots> = map (\<lambda>i. ?buf' ! ((?rd + i) mod cap)) [0..<?a] @ [x]"
      using upd_same by simp
    also have "map (\<lambda>i. ?buf' ! ((?rd + i) mod cap)) [0..<?a]
                 = map (\<lambda>i. buf ! ((?rd + i) mod cap)) [0..<?a]"
      using a by (intro map_cong refl upd_other) simp_all
    finally have "pcm_readable cap ?r' = pcm_readable cap r @ [x]" by (simp only: old)
    moreover have "length (pcm_readable cap r @ [x]) \<le> cap - 1"
      using True by (simp add: old)
    ultimately show ?thesis by (simp add: push last_n_def)
  next
    case False
    then have full: "?a + 1 = cap" using a by simp
    have wrap: "(?rd + (?a + 1)) mod cap = ?rd" unfolding full using rd by simp
    have eq: "(?wr + 1) mod cap = ?rd" unfolding nw by (rule wrap)
    let ?r' = "r\<lparr>ring_read_pos := (?rd + 1) mod cap, pcm_ring_buffer := Some ?buf',
                  ring_write_pos := ?rd\<rparr>"
    have push: "pcm_push cap x r = ?r'"
      using eq buf by (simp add: pcm_push_def Let_def)
    have rd': "(?rd + 1) mod cap < cap" using cap by simp
    have "((?rd + 1) mod cap + ?a) mod cap = (?rd + (?a + 1)) mod cap"
      by (simp add: mod_add_left_eq)
    then have ret: "((?rd + 1) mod cap + ?a) mod cap = ?rd" by (simp only: wrap)
    have av: "ring_buffer_available cap ?r' = ?a"
    proof (rule available_unique)
      show "((ring_read_pos ?r') + ?a) mod cap = ring_write_pos ?r'"
        using ret by simp
    qed (use rd rd' a in simp_all)
    have shift: "((?rd + 1) mod cap + i) mod cap = (?rd + Suc i) mod cap" for i
      by (simp add: mod_add_left_eq)
    have "pcm_readable cap ?r' =
            map (\<lambda>i. ?buf' ! ((ring_read_pos ?r' + i) mod cap)) [0..<ring_buffer_available cap ?r']"
      by (rule pcm_readable_map) (use rd' in simp_all)
    then have new: "pcm_readable cap ?r' = map (\<lambda>i. ?buf' ! ((?rd + Suc i) mod cap)) [0..<?a]"
      unfolding av using shift by simp
    have ln: "length (pcm_readable cap ?r') = ?a" unfolding new by simp
    have lo: "length (pcm_readable cap r) = ?a" unfolding old by simp
    have "pcm_readable cap ?r' = drop 1 (pcm_readable cap r @ [x])"
    proof (rule nth_equalityI)
      show "length (pcm_readable cap ?r') = length (drop 1 (pcm_readable cap r @ [x]))"
        unfolding ln by (simp add: lo)
    next
      fix i assume "i < length (pcm_readable cap ?r')"
      then have i: "i < ?a" unfolding ln .
      have l: "pcm_readable cap ?r' ! i = ?buf' ! ((?rd + Suc i) mod cap)"
        unfolding new using i by simp
      have "drop 1 (pcm_readable cap r @ [x]) ! i = (pcm_readable cap r @ [x]) ! (1 + i)"
        by (rule nth_drop) simp
      then have d: "drop 1 (pcm_readable cap r @ [x]) ! i = (pcm_readable cap r @ [x]) ! Suc i"
        by (simp only: plus_1_eq_Suc)
      show "pcm_readable cap ?r' ! i = drop 1 (pcm_readable cap r @ [x]) ! i"
      proof (cases "Suc i = ?a")
        case True
        have "(pcm_readable cap r @ [x]) ! Suc i = x"
          using True lo by (simp add: nth_append)
        moreover have "?buf' ! ((?rd + Suc i) mod cap) = x"
          unfolding True by (rule upd_same)
        ultimately show ?thesis unfolding l d by simp
      next
        case False
        then have lt: "Suc i < ?a" using i by simp
        have "(pcm_readable cap r @ [x]) ! Suc i = buf ! ((?rd + Suc i) mod cap)"
          using lt lo by (simp add: nth_append old)
        moreover have "?buf' ! ((?rd + Suc i) mod cap) = buf ! ((?rd + Suc i) mod cap)"
          using upd_other [of "Suc i"] False lt a by simp
        ultimately show ?thesis unfolding l d by simp
      qed
    qed
    moreover have "length (pcm_readable cap r @ [x]) - (cap - 1) = 1"
      using full by (simp add: lo)
    ultimately show ?thesis unfolding push last_n_def by simp
  qed
qed

lemma pcm_readable_length:
  assumes "pcm_ring_ok cap r"
  shows "length (pcm_readable cap r) = ring_buffer_available cap r \<and>
         ring_buffer_available cap r \<le> cap - 1"
proof -
  from assms obtain buf where buf: "pcm_ring_buffer r = Some buf"
    and rd: "ring_read_pos r < cap" and wr: "ring_write_pos r < cap"
    by (auto simp: pcm_ring_ok_def split: option.splits)
  from available_char [OF rd wr] pcm_readable_map [OF buf rd] show ?thesis by auto
qed

lemma pcm_push_all:
  assumes "pcm_ring_ok cap r"
  shows "pcm_ring_ok cap (foldl (\<lambda>r x. pcm_push cap x r) r data) \<and>
         pcm_readable cap (foldl (\<lambda>r x. pcm_push cap x r) r data)
           = last_n (cap - 1) (pcm_readable cap r @ data)"
  using assms
proof (induction data arbitrary: r)
  case Nil
  then show ?case using pcm_readable_length [of cap r] by (simp add: last_n_def)
next
  case (Cons x xs)
  have ok: "pcm_ring_ok cap (pcm_push cap x r)" by (rule pcm_push_ok [OF Cons.prems])
  from Cons.IH [OF ok]
  have "pcm_readable cap (foldl (\<lambda>r x. pcm_push cap x r) (pcm_push cap x r) xs)
          = last_n (cap - 1) (last_n (cap - 1) (pcm_readable cap r @ [x]) @ xs)"
    and ok': "pcm_ring_ok cap (foldl (\<lambda>r x. pcm_push cap x r) (pcm_push cap x r) xs)"
    by (simp_all add: pcm_push_readable [OF Cons.prems])
  then show ?case by (simp add: last_n_append)
qed


lemma length_last_n: "length (last_n m xs) = min m (length xs)"
  unfolding last_n_def by (cases "m \<le> length xs") simp_all

lemma last_n_drop_prefix: "m \<le> length xs \<Longrightarrow> last_n m (ys @ xs) = last_n m xs"
  by (simp add: last_n_def)

lemma pcm_ring_init_ok: "0 < cap \<Longrightarrow> pcm_ring_ok cap (pcm_ring_init cap)"
  by (simp add: pcm_ring_ok_def pcm_ring_init_def)

lemma pcm_ring_init_readable: "0 < cap \<Longrightarrow> pcm_readable cap (pcm_ring_init cap) = []"
  using pcm_readable_length [OF pcm_ring_init_ok, of cap]
  by (simp add: ring_buffer_available_def pcm_ring_init_def)

text \<open>
  C3 (as amended). Once the buffer is allocated with \<open>cap\<close> slots and both offsets are
  inside it, a push of any block of samples returns 0 and leaves readable, oldest first,
  the last \<open>cap - 1\<close> samples of what was readable before followed by the block: one
  slot always stays empty to tell a full buffer from an empty one. So a block of at least
  \<open>cap - 1\<close> samples leaves exactly its last \<open>cap - 1\<close> samples readable, and a single
  push into a full buffer discards the oldest unread sample. Before allocation the push
  returns -1 and changes nothing.
\<close>

theorem pcm_ring_keeps_latest:
  "(pcm_ring_ok cap r \<longrightarrow>
      fst (opus_receive_pcm cap data r) = 0 \<and>
      pcm_ring_ok cap (snd (opus_receive_pcm cap data r)) \<and>
      pcm_readable cap (snd (opus_receive_pcm cap data r))
        = last_n (cap - 1) (pcm_readable cap r @ data) \<and>
      ring_buffer_available cap (snd (opus_receive_pcm cap data r))
        = min (cap - 1) (ring_buffer_available cap r + length data) \<and>
      (cap - 1 \<le> length data \<longrightarrow>
         pcm_readable cap (snd (opus_receive_pcm cap data r)) = last_n (cap - 1) data) \<and>
      pcm_readable cap (pcm_push cap x r)
        = (if ring_buffer_available cap r = cap - 1
           then drop 1 (pcm_readable cap r @ [x]) else pcm_readable cap r @ [x])) \<and>
   (pcm_ring_buffer r = None \<longrightarrow> opus_receive_pcm cap data r = (- 1, r))"
proof -
  have none: "pcm_ring_buffer r = None \<longrightarrow> opus_receive_pcm cap data r = (- 1, r)"
    by (simp add: opus_receive_pcm_def)
  have "fst (opus_receive_pcm cap data r) = 0 \<and>
      pcm_ring_ok cap (snd (opus_receive_pcm cap data r)) \<and>
      pcm_readable cap (snd (opus_receive_pcm cap data r))
        = last_n (cap - 1) (pcm_readable cap r @ data) \<and>
      ring_buffer_available cap (snd (opus_receive_pcm cap data r))
        = min (cap - 1) (ring_buffer_available cap r + length data) \<and>
      (cap - 1 \<le> length data \<longrightarrow>
         pcm_readable cap (snd (opus_receive_pcm cap data r)) = last_n (cap - 1) data) \<and>
      pcm_readable cap (pcm_push cap x r)
        = (if ring_buffer_available cap r = cap - 1
           then drop 1 (pcm_readable cap r @ [x]) else pcm_readable cap r @ [x])"
    if ok: "pcm_ring_ok cap r"
  proof -
    let ?r' = "foldl (\<lambda>r x. pcm_push cap x r) r data"
    have alloc: "pcm_ring_buffer r \<noteq> None"
      using ok by (auto simp: pcm_ring_ok_def split: option.splits)
    then have res: "opus_receive_pcm cap data r = (0, ?r')"
      by (simp add: opus_receive_pcm_def)
    from pcm_push_all [OF ok, of data]
    have ok': "pcm_ring_ok cap ?r'"
      and rd: "pcm_readable cap ?r' = last_n (cap - 1) (pcm_readable cap r @ data)"
      by simp_all
    from pcm_readable_length [OF ok] have lo: "length (pcm_readable cap r) = ring_buffer_available cap r"
      and le: "ring_buffer_available cap r \<le> cap - 1" by simp_all
    have "ring_buffer_available cap ?r' = length (pcm_readable cap ?r')"
      using pcm_readable_length [OF ok'] by simp
    also have "\<dots> = min (cap - 1) (ring_buffer_available cap r + length data)"
      unfolding rd by (simp add: length_last_n lo)
    finally have av: "ring_buffer_available cap ?r'
                        = min (cap - 1) (ring_buffer_available cap r + length data)" .
    have latest: "cap - 1 \<le> length data \<longrightarrow> pcm_readable cap ?r' = last_n (cap - 1) data"
      unfolding rd by (simp add: last_n_drop_prefix)
    have one: "pcm_readable cap (pcm_push cap x r)
        = (if ring_buffer_available cap r = cap - 1
           then drop 1 (pcm_readable cap r @ [x]) else pcm_readable cap r @ [x])"
      unfolding pcm_push_readable [OF ok] last_n_def using le by (simp add: lo)
    show ?thesis using ok' rd av latest one by (simp add: res)
  qed
  with none show ?thesis by blast
qed

theorem pcm_ring_keeps_latest_witness:
  "pcm_ring_ok 4 (pcm_ring_init 4) \<and>
   fst (opus_receive_pcm 4 [1, 2, 3, 4, 5] (pcm_ring_init 4)) = 0 \<and>
   pcm_readable 4 (snd (opus_receive_pcm 4 [1, 2, 3, 4, 5] (pcm_ring_init 4))) = [3, 4, 5] \<and>
   ring_buffer_available 4 (snd (opus_receive_pcm 4 [1, 2, 3, 4, 5] (pcm_ring_init 4))) = 3"
proof -
  have ok: "pcm_ring_ok 4 (pcm_ring_init 4)" by (simp add: pcm_ring_init_ok)
  have e: "pcm_readable 4 (pcm_ring_init 4) = []" by (simp add: pcm_ring_init_readable)
  have a: "ring_buffer_available 4 (pcm_ring_init 4) = 0"
    by (simp add: ring_buffer_available_def pcm_ring_init_def)
  from pcm_ring_keeps_latest [of 4 "pcm_ring_init 4" "[1, 2, 3, 4, 5]"] ok
  show ?thesis by (simp add: e a last_n_def)
qed

text \<open>
  The claim as stated fails: with 3 slots, four pushes into the initialised buffer leave the
  2 most recent samples readable, not 3; and a push into a buffer that was never allocated
  fails with -1.
\<close>

theorem pcm_ring_capacity_counterexample:
  "fst (opus_receive_pcm 3 [10, 20, 30, 40] (pcm_ring_init 3)) = 0 \<and>
   ring_buffer_available 3 (snd (opus_receive_pcm 3 [10, 20, 30, 40] (pcm_ring_init 3))) = 2 \<and>
   pcm_readable 3 (snd (opus_receive_pcm 3 [10, 20, 30, 40] (pcm_ring_init 3))) = [30, 40] \<and>
   pcm_readable 3 (snd (opus_receive_pcm 3 [10, 20, 30, 40] (pcm_ring_init 3))) \<noteq> [20, 30, 40] \<and>
   fst (opus_receive_pcm 3 [10, 20, 30, 40]
          \<lparr>pcm_ring_buffer = None, ring_write_pos = 0, ring_read_pos = 0\<rparr>) = - 1"
proof -
  let ?r = "snd (opus_receive_pcm 3 [10, 20, 30, 40] (pcm_ring_init 3))"
  have res: "opus_receive_pcm 3 [10, 20, 30, 40] (pcm_ring_init 3) =
               (0, foldl (\<lambda>r x. pcm_push 3 x r) (pcm_ring_init 3) [10, 20, 30, 40])"
    by (simp add: opus_receive_pcm_def pcm_ring_init_def)
  have ok: "pcm_ring_ok 3 (pcm_ring_init 3)" by (simp add: pcm_ring_init_ok)
  from pcm_push_all [OF ok, of "[10, 20, 30, 40]"]
  have ok': "pcm_ring_ok 3 ?r" and rd: "pcm_readable 3 ?r = [30, 40]"
    unfolding res by (simp_all add: pcm_ring_init_readable last_n_def)
  have av: "ring_buffer_available 3 ?r = 2"
    using pcm_readable_length [OF ok'] rd by simp
  have "fst (opus_receive_pcm 3 [10, 20, 30, 40]
          \<lparr>pcm_ring_buffer = None, ring_write_pos = 0, ring_read_pos = 0\<rparr>) = - 1"
    by (simp add: opus_receive_pcm_def)
  with rd av res show ?thesis by simp
qed


end
